theory Spec2Isabelle
  imports Main "HOL-Library.AList"
begin

section \<open>Python strings and collections\<close>

text \<open>
  The bundler of \<^verbatim>\<open>_create_util.py\<close> works on path strings, manifest text and lists.
  The few built-ins it calls are written out here: \<^verbatim>\<open>str.endswith\<close>,
  \<^verbatim>\<open>str.startswith\<close>, the substring test \<^verbatim>\<open>a in b\<close>, \<^verbatim>\<open>str.lower\<close> (on
  ASCII letters), \<^verbatim>\<open>str.replace\<close> and \<^verbatim>\<open>any\<close> over strings (a string is truthy when
  it is not empty).
\<close>

definition endswith :: "string \<Rightarrow> string \<Rightarrow> bool" where
  "endswith s suffix =
     (length suffix \<le> length s \<and> drop (length s - length suffix) s = suffix)"

definition startswith :: "string \<Rightarrow> string \<Rightarrow> bool" where
  "startswith s pre = (take (length pre) s = pre)"

definition str_in :: "string \<Rightarrow> string \<Rightarrow> bool" where
  "str_in sub s = list_ex (\<lambda>i. startswith (drop i s) sub) [0 ..< Suc (length s)]"

definition lower_char :: "char \<Rightarrow> char" where
  "lower_char c =
     (let n = (of_char c :: nat) in if 65 \<le> n \<and> n \<le> 90 then char_of (n + 32) else c)"

definition str_lower :: "string \<Rightarrow> string" where
  "str_lower s = map lower_char s"

function str_replace :: "string \<Rightarrow> string \<Rightarrow> string \<Rightarrow> string" where
  "str_replace s old new =
     (if old = [] then new @ concat (map (\<lambda>c. c # new) s)
      else if s = [] then []
      else if take (length old) s = old
        then new @ str_replace (drop (length old) s) old new
      else hd s # str_replace (tl s) old new)"
  by pat_completeness auto
termination
  by (relation "measure (\<lambda>(s, old, new). length s)") auto

declare str_replace.simps [simp del]

definition py_any :: "string list \<Rightarrow> bool" where
  "py_any xs = list_ex (\<lambda>x. x \<noteq> []) xs"

text \<open>
  A Python \<^verbatim>\<open>set\<close> of strings is kept as a list without repetitions; \<^verbatim>\<open>set.add\<close>
  leaves the list alone when the element is there.
\<close>

definition set_add :: "string \<Rightarrow> string list \<Rightarrow> string list" where
  "set_add x xs = (if x \<in> set xs then xs else xs @ [x])"

section \<open>Exceptions, files and the operating system\<close>

text \<open>
  Every exception the bundler raises or lets through is a value. \<open>OSError\<close> carries its
  errno (2 for a missing file, 13 for a refused permission, 17 for an existing one);
  \<open>PyException\<close> is the bare \<^verbatim>\<open>Exception\<close> of \<^verbatim>\<open>_get_dotnet_main_project_csproj\<close>;
  \<open>CLIError_of\<close> is \<^verbatim>\<open>CLIError(e)\<close> built from an \<open>OSError\<close>.
\<close>

datatype exn =
    OSError int
  | ValueError
  | TypeError
  | ParseError
  | BadZipFile
  | LargeZipFile
  | KeyError string
  | PyException string
  | CLIError string
  | CLIError_of int

text \<open>
  A file is its text, or an archive: the list of its entries in the order they were
  written, each a name and a content. Names may repeat in an archive, as \<^verbatim>\<open>zipfile\<close>
  allows.
\<close>

datatype node = Raw string | Archive "(string \<times> node) list"

text \<open>
  The state the bundler changes: the files, keyed by the path string handed to the
  operating system (two spellings of one path are two keys), and the warnings logged so
  far.
\<close>

record fs_state =
  files :: "(string \<times> node) list"
  warnings :: "string list"

text \<open>A directory tree as \<^verbatim>\<open>os.walk\<close> sees it: the file names and the subdirectories.\<close>

datatype dtree = DTree "string list" "(string \<times> dtree) list"

text \<open>An element of a parsed manifest (\<^verbatim>\<open>xml.etree.ElementTree\<close>).\<close>

datatype elem = Elem (tag: string) (attrib: "(string \<times> string) list") (children: "elem list")

text \<open>The operations the environment can make fail (a refused permission, a full disk,
  a corrupted entry).\<close>

datatype io_op =
    Op_parse string
  | Op_read string
  | Op_zip_open string string
  | Op_zip_write string string
  | Op_zip_writestr string string
  | Op_zip_mkdir string string
  | Op_zip_read string string
  | Op_remove string
  | Op_rename string string

text \<open>
  What the bundler takes from outside this file: the directory listings (a snapshot,
  which the archives written by the bundler do not change), the XML parser, the
  functions of \<^verbatim>\<open>os.path\<close> (they differ between platforms, so they stay parameters;
  \<^verbatim>\<open>os.path.join\<close> of three parts is two joins), the name \<^verbatim>\<open>zipfile\<close> stores for an
  \<^verbatim>\<open>arcname\<close> given to \<^verbatim>\<open>ZipFile.write\<close>, the faults injected into input and output,
  the element a Python \<^verbatim>\<open>set.pop\<close> picks (the index, modulo the size), the element
  the iteration over a Python \<^verbatim>\<open>set\<close> gives next (likewise), the temporary
  directory and the UUID drawn by \<^verbatim>\<open>zip_contents_from_dir\<close>, and the constants of
  \<^verbatim>\<open>_constants.py\<close>.
\<close>

record os_env =
  os_listdir :: "string \<Rightarrow> exn + string list"
  os_walk_tree :: "string \<Rightarrow> dtree option"
  xml_parse :: "string \<Rightarrow> elem option"
  os_path_join :: "string \<Rightarrow> string \<Rightarrow> string"
  os_path_abspath :: "string \<Rightarrow> string"
  os_path_dirname :: "string \<Rightarrow> string"
  os_path_basename :: "string \<Rightarrow> string"
  os_path_splitdrive :: "string \<Rightarrow> string \<times> string"
  os_path_split :: "string \<Rightarrow> string \<times> string"
  os_path_sep :: string
  zip_arcname :: "string \<Rightarrow> string"
  io_fault :: "io_op \<Rightarrow> exn option"
  set_pop :: "string list \<Rightarrow> nat"
  set_iter :: "string list \<Rightarrow> nat"
  tempfile_gettempdir :: string
  uuid_uuid4 :: string
  DOTNET_REFERENCES_DIR_IN_ZIP :: string
  NETCORE_RUNTIME_NAME :: string
  NODE_RUNTIME_NAME :: string
  PYTHON_RUNTIME_NAME :: string

type_synonym 'a io = "fs_state \<Rightarrow> (exn + 'a) \<times> fs_state"

definition ret :: "'a \<Rightarrow> 'a io" where
  "ret x s = (Inr x, s)"

text \<open>Sequencing: an exception of the first part skips the second.\<close>

definition seq :: "'a io \<Rightarrow> ('a \<Rightarrow> 'b io) \<Rightarrow> 'b io" where
  "seq m f s = (case m s of (Inl e, s') \<Rightarrow> (Inl e, s') | (Inr x, s') \<Rightarrow> f x s')"

text \<open>A \<^verbatim>\<open>for\<close> loop whose body may raise.\<close>

fun for_each :: "('a \<Rightarrow> unit io) \<Rightarrow> 'a list \<Rightarrow> unit io" where
  "for_each body [] s = (Inr (), s)"
| "for_each body (x # xs) s =
     (case body x s of (Inl e, s') \<Rightarrow> (Inl e, s') | (Inr u, s') \<Rightarrow> for_each body xs s')"

definition io_guard :: "os_env \<Rightarrow> io_op \<Rightarrow> 'a io \<Rightarrow> 'a io" where
  "io_guard env op m s = (case io_fault env op of Some e \<Rightarrow> (Inl e, s) | None \<Rightarrow> m s)"

subsection \<open>Files\<close>

definition lookup_file :: "fs_state \<Rightarrow> string \<Rightarrow> node option" where
  "lookup_file s p = map_of (files s) p"

definition store_file :: "string \<Rightarrow> node \<Rightarrow> fs_state \<Rightarrow> fs_state" where
  "store_file p n s = s\<lparr>files := AList.update p n (files s)\<rparr>"

definition archive_entries :: "fs_state \<Rightarrow> string \<Rightarrow> (string \<times> node) list" where
  "archive_entries s p = (case lookup_file s p of Some (Archive es) \<Rightarrow> es | _ \<Rightarrow> [])"

definition zip_append_entry :: "string \<Rightarrow> string \<times> node \<Rightarrow> fs_state \<Rightarrow> fs_state" where
  "zip_append_entry p e s = store_file p (Archive (archive_entries s p @ [e])) s"

text \<open>
  A file holds bytes, and a text is kept as its UTF-8 encoding, which is what
  \<^verbatim>\<open>ZipFile.writestr\<close> stores for a string. Decoding with \<^verbatim>\<open>utf-8-sig\<close> drops a byte
  order mark at the start of the file.
\<close>

definition BOM_UTF8 :: string where
  "BOM_UTF8 = [CHR 0xEF, CHR 0xBB, CHR 0xBF]"

definition decode_utf_8_sig :: "string \<Rightarrow> string" where
  "decode_utf_8_sig b = (if startswith b BOM_UTF8 then drop (length BOM_UTF8) b else b)"

text \<open>Reading in text mode with the default \<^verbatim>\<open>newline=None\<close>: each of the line ends
  \<^verbatim>\<open>\r\n\<close>, \<^verbatim>\<open>\r\<close> and \<^verbatim>\<open>\n\<close> is read as \<^verbatim>\<open>\n\<close>.\<close>

fun universal_newlines :: "string \<Rightarrow> string" where
  "universal_newlines [] = []"
| "universal_newlines [c] = (if c = CHR 0x0D then [CHR 0x0A] else [c])"
| "universal_newlines (c # d # t) =
     (if c = CHR 0x0D then
        (if d = CHR 0x0A then CHR 0x0A # universal_newlines t
         else CHR 0x0A # universal_newlines (d # t))
      else c # universal_newlines (d # t))"

text \<open>\<^verbatim>\<open>open(path, "r", encoding="utf-8-sig").read()\<close>: the text of the file. Bytes that
  are not UTF-8 raise an error of the decoder, which is one of the faults of
  \<open>Op_read\<close>.\<close>

definition read_text :: "os_env \<Rightarrow> string \<Rightarrow> string io" where
  "read_text env p =
     io_guard env (Op_read p) (\<lambda>s.
       case lookup_file s p of
         None \<Rightarrow> (Inl (OSError 2), s)
       | Some (Archive es) \<Rightarrow> (Inl ValueError, s)
       | Some (Raw b) \<Rightarrow> (Inr (universal_newlines (decode_utf_8_sig b)), s))"

text \<open>\<^verbatim>\<open>ZipFile(path, "w")\<close> creates or truncates the archive.\<close>

definition zip_open_w :: "os_env \<Rightarrow> string \<Rightarrow> unit io" where
  "zip_open_w env p =
     io_guard env (Op_zip_open p ''w'') (\<lambda>s. (Inr (), store_file p (Archive []) s))"

text \<open>\<^verbatim>\<open>ZipFile(path, "a")\<close> opens an archive to append; it creates an empty one where
  there is no file, and starts an archive with no entry in a file that is not one.\<close>

definition zip_open_a :: "os_env \<Rightarrow> string \<Rightarrow> unit io" where
  "zip_open_a env p =
     io_guard env (Op_zip_open p ''a'') (\<lambda>s.
       case lookup_file s p of
         Some (Archive es) \<Rightarrow> (Inr (), s)
       | _ \<Rightarrow> (Inr (), store_file p (Archive []) s))"

text \<open>\<^verbatim>\<open>ZipFile(path, "r")\<close> gives the entries (\<^verbatim>\<open>infolist\<close>).\<close>

definition zip_open_r :: "os_env \<Rightarrow> string \<Rightarrow> ((string \<times> node) list) io" where
  "zip_open_r env p =
     io_guard env (Op_zip_open p ''r'') (\<lambda>s.
       case lookup_file s p of
         None \<Rightarrow> (Inl (OSError 2), s)
       | Some (Raw t) \<Rightarrow> (Inl BadZipFile, s)
       | Some (Archive es) \<Rightarrow> (Inr es, s))"

text \<open>\<^verbatim>\<open>zf.open(name).read()\<close>: where a name repeats, \<^verbatim>\<open>zipfile\<close> reads the entry
  written last.\<close>

definition zf_read :: "os_env \<Rightarrow> string \<Rightarrow> (string \<times> node) list \<Rightarrow> string \<Rightarrow> node io" where
  "zf_read env p es name =
     io_guard env (Op_zip_read p name) (\<lambda>s.
       case map_of (rev es) name of
         None \<Rightarrow> (Inl (KeyError name), s)
       | Some n \<Rightarrow> (Inr n, s))"

text \<open>\<^verbatim>\<open>zf.write(filename, arcname)\<close> stores the content of a file of the disk.\<close>

definition zf_write :: "os_env \<Rightarrow> string \<Rightarrow> string \<Rightarrow> string \<Rightarrow> unit io" where
  "zf_write env zp filename arcname =
     io_guard env (Op_zip_write zp filename) (\<lambda>s.
       case lookup_file s filename of
         None \<Rightarrow> (Inl (OSError 2), s)
       | Some n \<Rightarrow> (Inr (), zip_append_entry zp (zip_arcname env arcname, n) s))"

text \<open>\<^verbatim>\<open>zf.writestr(name, data)\<close> stores the data given, under the name given (the
  bundler gives it a file name of the root directory or the name of an entry it has read).\<close>

definition zf_writestr :: "os_env \<Rightarrow> string \<Rightarrow> string \<Rightarrow> node \<Rightarrow> unit io" where
  "zf_writestr env zp name data =
     io_guard env (Op_zip_writestr zp name) (\<lambda>s. (Inr (), zip_append_entry zp (name, data) s))"

text \<open>\<^verbatim>\<open>zf.mkdir(name)\<close> stores a directory entry: the name with a final \<^verbatim>\<open>/\<close> and
  no content.\<close>

definition directory_entry_name :: "string \<Rightarrow> string" where
  "directory_entry_name name = (if endswith name ''/'' then name else name @ ''/'')"

definition zf_mkdir :: "os_env \<Rightarrow> string \<Rightarrow> string \<Rightarrow> unit io" where
  "zf_mkdir env zp name =
     io_guard env (Op_zip_mkdir zp name) (\<lambda>s.
       (Inr (), zip_append_entry zp (directory_entry_name name, Raw []) s))"

definition os_remove :: "os_env \<Rightarrow> string \<Rightarrow> unit io" where
  "os_remove env p =
     io_guard env (Op_remove p) (\<lambda>s.
       case lookup_file s p of
         None \<Rightarrow> (Inl (OSError 2), s)
       | Some n \<Rightarrow> (Inr (), s\<lparr>files := AList.delete p (files s)\<rparr>))"

definition os_rename :: "os_env \<Rightarrow> string \<Rightarrow> string \<Rightarrow> unit io" where
  "os_rename env src dst =
     io_guard env (Op_rename src dst) (\<lambda>s.
       case lookup_file s src of
         None \<Rightarrow> (Inl (OSError 2), s)
       | Some n \<Rightarrow> (Inr (), s\<lparr>files := AList.update dst n (AList.delete src (files s))\<rparr>))"

text \<open>
  \<^verbatim>\<open>os.walk(top)\<close>, top down, with the pruning \<^verbatim>\<open>subdirs[:] = [d for d in subdirs if ...]\<close>
  of the callers: a subdirectory that is not kept is not entered. Each step gives the
  directory's path and its file names.
\<close>

fun os_walk :: "os_env \<Rightarrow> (string \<Rightarrow> bool) \<Rightarrow> string \<Rightarrow> dtree \<Rightarrow> (string \<times> string list) list"
  and os_walk_subdirs ::
    "os_env \<Rightarrow> (string \<Rightarrow> bool) \<Rightarrow> string \<Rightarrow> (string \<times> dtree) list \<Rightarrow> (string \<times> string list) list"
where
  "os_walk env keep topdir (DTree filenames subdirs) =
     (topdir, filenames) # os_walk_subdirs env keep topdir subdirs"
| "os_walk_subdirs env keep topdir [] = []"
| "os_walk_subdirs env keep topdir ((d, t) # rest) =
     (if keep d then os_walk env keep (os_path_join env topdir d) t else [])
     @ os_walk_subdirs env keep topdir rest"

definition walk_dir :: "os_env \<Rightarrow> (string \<Rightarrow> bool) \<Rightarrow> string \<Rightarrow> (string \<times> string list) list" where
  "walk_dir env keep topdir =
     (case os_walk_tree env topdir of None \<Rightarrow> [] | Some t \<Rightarrow> os_walk env keep topdir t)"

section \<open>The bundler\<close>

subsection \<open>The root manifest and the references of a manifest\<close>

definition get_dotnet_main_project_csproj :: "os_env \<Rightarrow> string \<Rightarrow> exn + string" where
  "get_dotnet_main_project_csproj env dirPath =
     (case os_listdir env dirPath of
        Inl e \<Rightarrow> Inl e
      | Inr file_list \<Rightarrow>
          (let ll = filter (\<lambda>x. endswith x ''.csproj'') file_list
           in if length ll = 1 then Inr (os_path_join env dirPath (hd ll))
              else Inl (PyException (dirPath @ '' should contain only one .csproj file''))))"

text \<open>\<^verbatim>\<open>ET.parse(path)\<close>: the file is read and parsed.\<close>

definition ET_parse :: "os_env \<Rightarrow> fs_state \<Rightarrow> string \<Rightarrow> exn + elem" where
  "ET_parse env s p =
     (case io_fault env (Op_parse p) of
        Some e \<Rightarrow> Inl e
      | None \<Rightarrow>
          (case lookup_file s p of
             None \<Rightarrow> Inl (OSError 2)
           | Some (Archive es) \<Rightarrow> Inl ParseError
           | Some (Raw t) \<Rightarrow>
               (case xml_parse env t of None \<Rightarrow> Inl ParseError | Some root \<Rightarrow> Inr root)))"

text \<open>The loop over the \<^verbatim>\<open>ProjectReference\<close> elements: \<^verbatim>\<open>project.attrib['Include']\<close>
  raises \<^verbatim>\<open>KeyError\<close> where the attribute is missing.\<close>

fun include_paths :: "elem list \<Rightarrow> exn + string list" where
  "include_paths [] = Inr []"
| "include_paths (project # rest) =
     (case map_of (attrib project) ''Include'' of
        None \<Rightarrow> Inl (KeyError ''Include'')
      | Some include \<Rightarrow>
          (case include_paths rest of
             Inl e \<Rightarrow> Inl e
           | Inr abs_references \<Rightarrow>
               Inr (if endswith include ''.csproj'' then include # abs_references
                    else abs_references)))"

definition project_reference_elems :: "elem \<Rightarrow> elem list" where
  "project_reference_elems root =
     (let item_groups =
            filter (\<lambda>item. tag item = ''ItemGroup''
                      \<and> list_ex (\<lambda>c. tag c = ''ProjectReference'') (children item))
              (children root)
      in concat (map (\<lambda>i. filter (\<lambda>project. tag project = ''ProjectReference'') (children i))
                   item_groups))"

definition get_dotnet_project_references :: "os_env \<Rightarrow> fs_state \<Rightarrow> string \<Rightarrow> exn + string list" where
  "get_dotnet_project_references env s csproj_path =
     (case ET_parse env s csproj_path of
        Inl e \<Rightarrow> Inl e
      | Inr root \<Rightarrow> include_paths (project_reference_elems root))"

subsection \<open>The transitive references\<close>

text \<open>The body of the inner \<^verbatim>\<open>for\<close>: a reference not yet in \<^verbatim>\<open>result_references\<close> is
  appended to it and added to \<^verbatim>\<open>newReference\<close>.\<close>

definition note_reference :: "string list \<times> string list \<Rightarrow> string \<Rightarrow> string list \<times> string list" where
  "note_reference acc suggested_reference =
     (if suggested_reference \<in> set (fst acc) then acc
      else (fst acc @ [suggested_reference], set_add suggested_reference (snd acc)))"

text \<open>Every reference a manifest of the disk declares: the references the loop can
  ever meet.\<close>

definition declared_references :: "os_env \<Rightarrow> fs_state \<Rightarrow> string list" where
  "declared_references env s =
     concat (map (\<lambda>p. case get_dotnet_project_references env s p of
                        Inl e \<Rightarrow> [] | Inr rs \<Rightarrow> rs)
               (map fst (files s)))"

lemma references_declared:
  assumes "get_dotnet_project_references env s p = Inr rs"
  shows "set rs \<subseteq> set (declared_references env s)"
proof -
  have "lookup_file s p \<noteq> None"
    using assms
    by (auto simp: get_dotnet_project_references_def ET_parse_def
        split: option.splits sum.splits)
  then have "p \<in> set (map fst (files s))"
    by (metis lookup_file_def map_of_eq_None_iff set_map)
  then have "rs \<in> set (map (\<lambda>p. case get_dotnet_project_references env s p of
                                Inl e \<Rightarrow> [] | Inr rs \<Rightarrow> rs) (map fst (files s)))"
    using assms by force
  then show ?thesis
    unfolding declared_references_def by auto
qed

lemma note_reference_fst_set:
  "set (fst (foldl note_reference acc rs)) = set (fst acc) \<union> set rs"
  by (induction rs arbitrary: acc) (auto simp: note_reference_def)

lemma note_reference_known:
  "set rs \<subseteq> set (fst acc) \<Longrightarrow> foldl note_reference acc rs = acc"
  by (induction rs arbitrary: acc) (auto simp: note_reference_def)

lemma py_any_nonempty: "py_any xs \<Longrightarrow> xs \<noteq> []"
  by (auto simp: py_any_def)

text \<open>
  Why the loop ends. A pass of the \<^verbatim>\<open>while\<close> loop either appends to
  \<^verbatim>\<open>result_references\<close> a declared reference that was not there, or leaves it as it
  was and makes \<^verbatim>\<open>newReference\<close> one element shorter.
\<close>

lemma loop_step_decreases:
  assumes "py_any new"
    and "i = set_pop env new mod length new"
    and "reference = new ! i"
    and "remaining = take i new @ drop (Suc i) new"
    and "get_dotnet_project_references env s reference = Inr abs_references"
    and "acc = foldl note_reference (res, remaining) abs_references"
  shows "((env, s, fst acc, snd acc), (env, s, res, new))
         \<in> measures
             [\<lambda>(env, s, res, new). card (set (declared_references env s) - set res),
              \<lambda>(env, s, res, new). length new]"
proof -
  have ne: "new \<noteq> []" using assms(1) by (rule py_any_nonempty)
  have i: "i < length new" using ne assms(2) by simp
  have decl: "set abs_references \<subseteq> set (declared_references env s)"
    using assms(5) by (rule references_declared)
  have fst_acc: "set (fst acc) = set res \<union> set abs_references"
    using assms(6) by (simp add: note_reference_fst_set)
  show ?thesis
  proof (cases "set abs_references \<subseteq> set res")
    case True
    then have "acc = (res, remaining)"
      using assms(6) by (simp add: note_reference_known)
    moreover have "length remaining < length new"
      using i assms(4) by simp
    ultimately show ?thesis by simp
  next
    case False
    then obtain x where x: "x \<in> set abs_references" "x \<notin> set res" by blast
    have "set (declared_references env s) - set (fst acc)
          \<subset> set (declared_references env s) - set res"
      using x decl fst_acc by blast
    then have "card (set (declared_references env s) - set (fst acc))
               < card (set (declared_references env s) - set res)"
      by (simp add: psubset_card_mono)
    then show ?thesis by (simp add: case_prod_beta)
  qed
qed

function transitive_loop ::
  "os_env \<Rightarrow> fs_state \<Rightarrow> string list \<Rightarrow> string list \<Rightarrow> exn + string list" where
  "transitive_loop env s result_references newReference =
     (if py_any newReference then
        (let i = set_pop env newReference mod length newReference;
             reference = newReference ! i;
             remaining = take i newReference @ drop (Suc i) newReference
         in case get_dotnet_project_references env s reference of
              Inl e \<Rightarrow> Inl e
            | Inr abs_references \<Rightarrow>
                (let acc = foldl note_reference (result_references, remaining) abs_references
                 in transitive_loop env s (fst acc) (snd acc)))
      else Inr result_references)"
  by pat_completeness auto
termination
proof (relation "measures
    [\<lambda>(env, s, res, new). card (set (declared_references env s) - set res),
     \<lambda>(env, s, res, new). length new]", goal_cases)
  case 1
  show ?case by simp
next
  case (2 env s res new i reference remaining abs_references acc)
  then show ?case by (rule loop_step_decreases)
qed

declare transitive_loop.simps [simp del]

text \<open>
  \<^verbatim>\<open>list(s)\<close> for a set \<^verbatim>\<open>s\<close>: its elements in the order of iteration, which Python
  leaves unspecified. The environment picks, among the elements not yet given, the one
  that comes next.
\<close>

function py_list_of_set :: "os_env \<Rightarrow> string list \<Rightarrow> string list" where
  "py_list_of_set env xs =
     (if xs = [] then []
      else (let i = set_iter env xs mod length xs
            in xs ! i # py_list_of_set env (take i xs @ drop (Suc i) xs)))"
  by pat_completeness auto
termination
proof (relation "measure (\<lambda>(env, xs). length xs)", goal_cases)
  case 1
  show ?case by simp
next
  case (2 env xs i)
  then have "i < length xs" by simp
  then show ?case by simp
qed

declare py_list_of_set.simps [simp del]

lemma popped_element:
  assumes "i < length xs"
  shows "set (take i xs @ drop (Suc i) xs) \<union> {xs ! i} = set xs"
    and "distinct xs \<Longrightarrow> distinct (take i xs @ drop (Suc i) xs)"
    and "distinct xs \<Longrightarrow> xs ! i \<notin> set (take i xs @ drop (Suc i) xs)"
proof -
  have split: "xs = take i xs @ xs ! i # drop (Suc i) xs"
    using assms by (rule id_take_nth_drop)
  have "set xs = set (take i xs @ xs ! i # drop (Suc i) xs)"
    using split by simp
  then show "set (take i xs @ drop (Suc i) xs) \<union> {xs ! i} = set xs"
    by auto
  assume "distinct xs"
  then have d: "distinct (take i xs @ xs ! i # drop (Suc i) xs)"
    using split by simp
  show "distinct (take i xs @ drop (Suc i) xs)" using d by simp
  show "xs ! i \<notin> set (take i xs @ drop (Suc i) xs)" using d by auto
qed

lemma py_list_of_set_elements:
  "set (py_list_of_set env xs) = set xs
   \<and> (distinct xs \<longrightarrow> distinct (py_list_of_set env xs))"
proof (induction env xs rule: py_list_of_set.induct)
  case (1 env xs)
  show ?case
  proof (cases "xs = []")
    case True
    then show ?thesis by (simp add: py_list_of_set.simps[of env "[]"])
  next
    case False
    define i where "i = set_iter env xs mod length xs"
    define rest where "rest = take i xs @ drop (Suc i) xs"
    have i: "i < length xs" using False by (simp add: i_def)
    have ih: "set (py_list_of_set env rest) = set rest"
      "distinct rest \<Longrightarrow> distinct (py_list_of_set env rest)"
      using "1.IH"[OF False i_def] by (simp_all add: rest_def)
    have unfold: "py_list_of_set env xs = xs ! i # py_list_of_set env rest"
      using False
      by (simp add: py_list_of_set.simps[of env xs] i_def[symmetric] rest_def[symmetric] Let_def)
    have s: "set rest \<union> {xs ! i} = set xs"
      unfolding rest_def using i by (rule popped_element(1))
    have d: "distinct xs \<Longrightarrow> distinct rest" "distinct xs \<Longrightarrow> xs ! i \<notin> set rest"
      unfolding rest_def using popped_element(2,3)[OF i] by simp_all
    show ?thesis
      using unfold ih s d by auto
  qed
qed

lemma py_list_of_set_set [simp]: "set (py_list_of_set env xs) = set xs"
  using py_list_of_set_elements[of env xs] by simp

lemma py_list_of_set_distinct [simp]: "distinct xs \<Longrightarrow> distinct (py_list_of_set env xs)"
  using py_list_of_set_elements[of env xs] by simp

text \<open>
  The value returned is \<^verbatim>\<open>list(set(result_references) - set(current_references))\<close>:
  the references found that are not among those given, each once, in the order of
  iteration of the set.
\<close>

definition get_dotnet_transitive_missing_references ::
  "os_env \<Rightarrow> fs_state \<Rightarrow> string list \<Rightarrow> exn + string list" where
  "get_dotnet_transitive_missing_references env s current_references =
     (case transitive_loop env s current_references (remdups current_references) of
        Inl e \<Rightarrow> Inl e
      | Inr result_references \<Rightarrow>
          Inr (py_list_of_set env
                 (filter (\<lambda>r. r \<notin> set current_references) (remdups result_references))))"

text \<open>
  The same loop with a record the source does not keep: beside the result of the loop,
  the references handed to \<^verbatim>\<open>_get_dotnet_project_references\<close>, in the order of the
  calls. The first component is the result of \<open>transitive_loop\<close> (lemma
  \<open>transitive_loop_traced_result\<close> below).
\<close>

function transitive_loop_traced ::
  "os_env \<Rightarrow> fs_state \<Rightarrow> string list \<Rightarrow> string list \<Rightarrow> string list
   \<Rightarrow> (exn + string list) \<times> string list" where
  "transitive_loop_traced env s result_references newReference parsed =
     (if py_any newReference then
        (let i = set_pop env newReference mod length newReference;
             reference = newReference ! i;
             remaining = take i newReference @ drop (Suc i) newReference
         in case get_dotnet_project_references env s reference of
              Inl e \<Rightarrow> (Inl e, parsed @ [reference])
            | Inr abs_references \<Rightarrow>
                (let acc = foldl note_reference (result_references, remaining) abs_references
                 in transitive_loop_traced env s (fst acc) (snd acc) (parsed @ [reference])))
      else (Inr result_references, parsed))"
  by pat_completeness auto
termination
proof (relation "inv_image (measures
    [\<lambda>(env, s, res, new). card (set (declared_references env s) - set res),
     \<lambda>(env, s, res, new). length new])
    (\<lambda>(env, s, res, new, parsed). (env, s, res, new))", goal_cases)
  case 1
  show ?case by simp
next
  case (2 env s res new parsed i reference remaining abs_references acc)
  then have "((env, s, fst acc, snd acc), (env, s, res, new))
         \<in> measures
             [\<lambda>(env, s, res, new). card (set (declared_references env s) - set res),
              \<lambda>(env, s, res, new). length new]"
    by (rule loop_step_decreases)
  then show ?case by simp
qed

declare transitive_loop_traced.simps [simp del]

subsection \<open>Staging the referenced projects\<close>

text \<open>The path a reference gets in the archive (\<^verbatim>\<open>csproj_include\<close>).\<close>

definition csproj_include :: "os_env \<Rightarrow> string \<Rightarrow> string \<Rightarrow> string" where
  "csproj_include env dirPath include =
     (let abs_include = os_path_abspath env (os_path_join env dirPath include);
          dirname_include = os_path_dirname env abs_include;
          basename_dir_include = os_path_basename env dirname_include
      in os_path_join env
           (os_path_join env (DOTNET_REFERENCES_DIR_IN_ZIP env) basename_dir_include)
           (drop (length dirname_include + 1) abs_include))"

text \<open>The body of the loop of \<^verbatim>\<open>_append_dotnet_references\<close> for one reference: the
  files of its directory (but \<^verbatim>\<open>obj\<close> and \<^verbatim>\<open>bin\<close>), then the backup of its manifest.\<close>

definition append_reference :: "os_env \<Rightarrow> string \<Rightarrow> string \<Rightarrow> string \<Rightarrow> unit io" where
  "append_reference env dirPath zip_file_path include =
     (let abs_include = os_path_abspath env (os_path_join env dirPath include);
          dirname_include = os_path_dirname env abs_include;
          basename_dir_include = os_path_basename env dirname_include
      in seq
           (for_each
              (\<lambda>step. for_each
                 (\<lambda>filename.
                    let absname = os_path_abspath env (os_path_join env (fst step) filename);
                        arcname = os_path_join env
                          (os_path_join env (DOTNET_REFERENCES_DIR_IN_ZIP env) basename_dir_include)
                          (drop (length dirname_include + 1) absname)
                    in zf_write env zip_file_path absname arcname)
                 (snd step))
              (walk_dir env (\<lambda>d. d \<notin> set [''obj'', ''bin'']) dirname_include))
           (\<lambda>u. zf_write env zip_file_path abs_include
                  (csproj_include env dirPath include @ ''.bak'')))"

text \<open>The loop over the references; \<^verbatim>\<open>replace_dict\<close> is a Python dictionary, which
  keeps its keys in the order they were first set.\<close>

fun append_references_loop ::
  "os_env \<Rightarrow> string \<Rightarrow> string \<Rightarrow> string list \<Rightarrow> (string \<times> string) list
     \<Rightarrow> ((string \<times> string) list) io" where
  "append_references_loop env dirPath zip_file_path [] replace_dict s = (Inr replace_dict, s)"
| "append_references_loop env dirPath zip_file_path (include # rest) replace_dict s =
     (case append_reference env dirPath zip_file_path include s of
        (Inl e, s') \<Rightarrow> (Inl e, s')
      | (Inr u, s') \<Rightarrow>
          append_references_loop env dirPath zip_file_path rest
            (AList.update include (csproj_include env dirPath include) replace_dict) s')"

definition append_dotnet_references ::
  "os_env \<Rightarrow> string \<Rightarrow> string list \<Rightarrow> string \<Rightarrow> ((string \<times> string) list) io" where
  "append_dotnet_references env dirPath abs_references zip_file_path =
     seq (zip_open_a env zip_file_path)
       (\<lambda>u. append_references_loop env dirPath zip_file_path abs_references [])"

subsection \<open>Rewriting the root manifest and finishing the archive\<close>

definition rewrite_csproj :: "string \<Rightarrow> (string \<times> string) list \<Rightarrow> string" where
  "rewrite_csproj csproj_content replace_dict =
     foldl (\<lambda>new_csproj_content kv. str_replace new_csproj_content (fst kv) (snd kv))
       csproj_content replace_dict"

text \<open>The copy of the entries of the original archive (the inner loop of step 4).\<close>

definition copy_original_entries ::
  "os_env \<Rightarrow> string \<Rightarrow> string \<Rightarrow> (string \<times> node) list \<Rightarrow> unit io" where
  "copy_original_entries env zip_file_path tmp_zip_file_path infolist =
     for_each
       (\<lambda>original_info.
          if \<not> endswith (fst original_info) ''.csproj''
          then seq (zf_read env zip_file_path infolist (fst original_info))
                 (\<lambda>content. zf_writestr env tmp_zip_file_path (fst original_info) content)
          else ret ())
       infolist"

definition zip_dotnet_project_references :: "os_env \<Rightarrow> string \<Rightarrow> string \<Rightarrow> unit io" where
  "zip_dotnet_project_references env dirPath zip_file_path s =
     (case get_dotnet_main_project_csproj env dirPath of
        Inl e \<Rightarrow> (Inl e, s)
      | Inr csproj_path \<Rightarrow>
     (case get_dotnet_project_references env s csproj_path of
        Inl e \<Rightarrow> (Inl e, s)
      | Inr abs_references \<Rightarrow>
          if py_any abs_references then
            (let tmp_zip_file_path = zip_file_path @ ''.tmp'' in
             seq (seq (zip_open_w env tmp_zip_file_path)
                    (\<lambda>u. zf_mkdir env tmp_zip_file_path (DOTNET_REFERENCES_DIR_IN_ZIP env)))
            (\<lambda>u. seq (append_dotnet_references env dirPath abs_references tmp_zip_file_path)
            (\<lambda>replace_dict. seq (read_text env csproj_path)
            (\<lambda>csproj_content.
               let new_csproj_content = rewrite_csproj csproj_content replace_dict in
               seq (\<lambda>s1. (get_dotnet_transitive_missing_references env s1 abs_references, s1))
            (\<lambda>transitives_references.
               seq (if py_any transitives_references
                    then seq (append_dotnet_references env dirPath transitives_references
                                tmp_zip_file_path) (\<lambda>d. ret ())
                    else ret ())
            (\<lambda>u. seq (zip_open_a env tmp_zip_file_path)
            (\<lambda>u. seq (zf_write env tmp_zip_file_path csproj_path
                        (drop (length dirPath + 1) csproj_path @ ''.bak''))
            (\<lambda>u. seq (zf_writestr env tmp_zip_file_path
                        (drop (length dirPath + 1) csproj_path) (Raw new_csproj_content))
            (\<lambda>u. seq (zip_open_r env zip_file_path)
            (\<lambda>infolist. seq (copy_original_entries env zip_file_path tmp_zip_file_path infolist)
            (\<lambda>u. seq (os_remove env zip_file_path)
            (\<lambda>u. os_rename env tmp_zip_file_path zip_file_path))))))))))) s)
          else (Inr (), s)))"

subsection \<open>The caller\<close>

text \<open>The exceptions \<^verbatim>\<open>zip_contents_from_dir\<close> catches around the bundler:
  \<^verbatim>\<open>except (OSError, ValueError, TypeError, ParseError, BadZipFile, LargeZipFile)\<close>.\<close>

fun bundling_error_caught :: "exn \<Rightarrow> bool" where
  "bundling_error_caught (OSError n) = True"
| "bundling_error_caught ValueError = True"
| "bundling_error_caught TypeError = True"
| "bundling_error_caught ParseError = True"
| "bundling_error_caught BadZipFile = True"
| "bundling_error_caught LargeZipFile = True"
| "bundling_error_caught e = False"

text \<open>The filters of the walk, by language (the \<^verbatim>\<open>if\<close>/\<^verbatim>\<open>elif\<close> chain of the loop).\<close>

definition keep_subdir :: "os_env \<Rightarrow> string \<Rightarrow> string \<Rightarrow> bool" where
  "keep_subdir env lang d =
     (if str_lower lang = NODE_RUNTIME_NAME env then \<not> str_in ''node_modules'' d
      else if str_lower lang = NETCORE_RUNTIME_NAME env then d \<notin> set [''obj'', ''bin'']
      else if str_lower lang = PYTHON_RUNTIME_NAME env then \<not> str_in ''env'' d
      else True)"

definition keep_file :: "os_env \<Rightarrow> string \<Rightarrow> string \<Rightarrow> bool" where
  "keep_file env lang filename =
     (if str_lower lang = NODE_RUNTIME_NAME env then True
      else if str_lower lang = NETCORE_RUNTIME_NAME env then True
      else if str_lower lang = PYTHON_RUNTIME_NAME env then filename \<noteq> ''.env''
      else True)"

definition zip_contents_from_dir :: "os_env \<Rightarrow> string \<Rightarrow> string \<Rightarrow> string io" where
  "zip_contents_from_dir env dirPath lang s =
     (let relroot = os_path_abspath env (tempfile_gettempdir env);
          path_and_file = snd (os_path_splitdrive env dirPath);
          file_val = snd (os_path_split env path_and_file);
          file_val_unique = file_val @ take 259 (uuid_uuid4 env);
          zip_file_path = relroot @ os_path_sep env @ file_val_unique @ ''.zip'';
          abs_src = os_path_abspath env dirPath
      in case
           seq (seq (zip_open_w env zip_file_path)
                  (\<lambda>u. for_each
                     (\<lambda>step. for_each
                        (\<lambda>filename.
                           let absname = os_path_abspath env
                                 (os_path_join env (fst step) filename);
                               arcname = drop (length abs_src + 1) absname
                           in zf_write env zip_file_path absname arcname)
                        (filter (keep_file env lang) (snd step)))
                     (walk_dir env (keep_subdir env lang) dirPath)))
             (\<lambda>u. if str_lower lang = NETCORE_RUNTIME_NAME env
                  then (\<lambda>s1.
                    case zip_dotnet_project_references env abs_src zip_file_path s1 of
                      (Inl e, s2) \<Rightarrow>
                        if bundling_error_caught e
                        then (Inr (), s2\<lparr>warnings := warnings s2 @
                               [''Analysing and bundling dotnet project references have failed.'']\<rparr>)
                        else (Inl e, s2)
                    | (Inr v, s2) \<Rightarrow> (Inr (), s2))
                  else ret ()) s
         of
           (Inl (OSError errno), s') \<Rightarrow>
             (Inl (if errno = 13
                   then CLIError (''Insufficient permissions to create a zip in current directory. ''
                                  @ ''Please re-run the command with administrator privileges'')
                   else CLIError_of errno), s')
         | (Inl e, s') \<Rightarrow> (Inl e, s')
         | (Inr u, s') \<Rightarrow> (Inr zip_file_path, s'))"

section \<open>A POSIX environment for the examples\<close>

text \<open>
  The examples run the bundler on a POSIX system: \<^verbatim>\<open>posixpath.join\<close>,
  \<^verbatim>\<open>posixpath.split\<close>, \<^verbatim>\<open>posixpath.normpath\<close> and \<^verbatim>\<open>posixpath.abspath\<close> as the
  standard library defines them, and the name \<^verbatim>\<open>ZipInfo.from_file\<close> stores (the
  normalised \<^verbatim>\<open>arcname\<close> without its leading separators).
\<close>

definition posix_join :: "string \<Rightarrow> string \<Rightarrow> string" where
  "posix_join a b =
     (if startswith b ''/'' then b
      else if a = [] \<or> endswith a ''/'' then a @ b
      else a @ ''/'' @ b)"

definition posix_split :: "string \<Rightarrow> string \<times> string" where
  "posix_split p =
     (let tail = rev (takeWhile (\<lambda>c. c \<noteq> CHR ''/'') (rev p));
          head = take (length p - length tail) p
      in (if head \<noteq> [] \<and> head \<noteq> replicate (length head) (CHR ''/'')
          then rev (dropWhile (\<lambda>c. c = CHR ''/'') (rev head)) else head,
          tail))"

fun str_split :: "char \<Rightarrow> string \<Rightarrow> string list" where
  "str_split c [] = [[]]"
| "str_split c (x # xs) =
     (if x = c then [] # str_split c xs
      else (case str_split c xs of [] \<Rightarrow> [[x]] | w # ws \<Rightarrow> (x # w) # ws))"

fun str_join :: "string \<Rightarrow> string list \<Rightarrow> string" where
  "str_join sep [] = []"
| "str_join sep [x] = x"
| "str_join sep (x # y # ys) = x @ sep @ str_join sep (y # ys)"

definition normpath_step :: "nat \<Rightarrow> string list \<Rightarrow> string \<Rightarrow> string list" where
  "normpath_step initial_slashes new_comps part =
     (if part = [] \<or> part = ''.'' then new_comps
      else if part \<noteq> ''..'' \<or> (initial_slashes = 0 \<and> new_comps = [])
              \<or> (new_comps \<noteq> [] \<and> last new_comps = ''..'')
        then new_comps @ [part]
      else if new_comps \<noteq> [] then butlast new_comps
      else new_comps)"

definition posix_normpath :: "string \<Rightarrow> string" where
  "posix_normpath path =
     (if path = [] then ''.''
      else
        let initial_slashes =
              (if startswith path ''/''
               then (if startswith path ''//'' \<and> \<not> startswith path ''///'' then 2 else 1)
               else 0);
            comps = foldl (normpath_step initial_slashes) [] (str_split (CHR ''/'') path);
            joined = replicate initial_slashes (CHR ''/'') @ str_join ''/'' comps
        in if joined = [] then ''.'' else joined)"

definition posix_abspath :: "string \<Rightarrow> string \<Rightarrow> string" where
  "posix_abspath cwd path =
     posix_normpath (if startswith path ''/'' then path else posix_join cwd path)"

definition posix_arcname :: "string \<Rightarrow> string" where
  "posix_arcname arcname = dropWhile (\<lambda>c. c = CHR ''/'') (posix_normpath arcname)"

text \<open>The environment with no directory, no file that parses and no fault; the working
  directory is \<^verbatim>\<open>/srv/App\<close>, the archive folder of the references is \<^verbatim>\<open>references\<close>, and
  \<^verbatim>\<open>set.pop\<close> and the iteration over a set take the first element.\<close>

definition posix_env :: os_env where
  "posix_env =
     \<lparr> os_listdir = (\<lambda>p. Inl (OSError 2)),
       os_walk_tree = (\<lambda>p. None),
       xml_parse = (\<lambda>t. None),
       os_path_join = posix_join,
       os_path_abspath = posix_abspath ''/srv/App'',
       os_path_dirname = (\<lambda>p. fst (posix_split p)),
       os_path_basename = (\<lambda>p. snd (posix_split p)),
       os_path_splitdrive = (\<lambda>p. ([], p)),
       os_path_split = posix_split,
       os_path_sep = ''/'',
       zip_arcname = posix_arcname,
       io_fault = (\<lambda>op. None),
       set_pop = (\<lambda>xs. 0),
       set_iter = (\<lambda>xs. 0),
       tempfile_gettempdir = ''/tmp'',
       uuid_uuid4 = ''0f8fad5b-d9cb-469f-a165-70867728950e'',
       DOTNET_REFERENCES_DIR_IN_ZIP = ''references'',
       NETCORE_RUNTIME_NAME = ''dotnetcore'',
       NODE_RUNTIME_NAME = ''node'',
       PYTHON_RUNTIME_NAME = ''python'' \<rparr>"

text \<open>
  The manifests of the examples: the text of a manifest that declares the given
  references, the tree \<^verbatim>\<open>ElementTree\<close> parses it to, and a parser that knows the
  manifests listed.
\<close>

definition manifest_text :: "string list \<Rightarrow> string" where
  "manifest_text includes =
     ''<Project><ItemGroup>''
     @ concat (map (\<lambda>r. ''<ProjectReference Include='' @ [CHR 0x22] @ r @ [CHR 0x22] @ '' />'')
                 includes)
     @ ''</ItemGroup></Project>''"

definition manifest_tree :: "string list \<Rightarrow> elem" where
  "manifest_tree includes =
     Elem ''Project'' []
       [Elem ''ItemGroup'' []
          (map (\<lambda>r. Elem ''ProjectReference'' [(''Include'', r)] []) includes)]"

definition parse_manifests :: "string list list \<Rightarrow> string \<Rightarrow> elem option" where
  "parse_manifests known t = map_of (map (\<lambda>rs. (manifest_text rs, manifest_tree rs)) known) t"

definition list_dirs :: "(string \<times> string list) list \<Rightarrow> string \<Rightarrow> exn + string list" where
  "list_dirs ds p = (case map_of ds p of None \<Rightarrow> Inl (OSError 2) | Some names \<Rightarrow> Inr names)"

text \<open>A root directory with two manifests.\<close>

definition two_manifests_env :: os_env where
  "two_manifests_env =
     posix_env\<lparr>
       os_listdir := list_dirs [(''/srv/App'', [''App.csproj'', ''Other.csproj'', ''Program.cs''])],
       os_walk_tree := map_of
         [(''/srv/App'', DTree [''App.csproj'', ''Other.csproj'', ''Program.cs''] [])],
       xml_parse := parse_manifests [[]] \<rparr>"

definition two_manifests_state :: fs_state where
  "two_manifests_state =
     \<lparr> files = [(''/srv/App/App.csproj'', Raw (manifest_text [])),
                (''/srv/App/Other.csproj'', Raw (manifest_text [])),
                (''/srv/App/Program.cs'', Raw ''class Program {}'')],
       warnings = [] \<rparr>"

text \<open>A project whose manifest declares no reference, and its archive.\<close>

definition plain_env :: os_env where
  "plain_env =
     posix_env\<lparr>
       os_listdir := list_dirs [(''/srv/App'', [''App.csproj'', ''Program.cs''])],
       xml_parse := parse_manifests [[]] \<rparr>"

definition plain_state :: fs_state where
  "plain_state =
     \<lparr> files = [(''/srv/App/App.csproj'', Raw (manifest_text [])),
                (''/srv/App/Program.cs'', Raw ''class Program {}''),
                (''/tmp/App.zip'', Archive [(''App.csproj'', Raw (manifest_text [])),
                                            (''Program.cs'', Raw ''class Program {}'')])],
       warnings = [] \<rparr>"



text \<open>
  An application that references a library. Its directory holds a second project in a
  subdirectory, and the archive built from the directory holds the three files.
\<close>

definition app_env :: os_env where
  "app_env =
     posix_env\<lparr>
       os_listdir := list_dirs [(''/srv/App'', [''App.csproj'', ''Program.cs'', ''Tools''])],
       os_walk_tree := map_of
         [(''/srv/App'', DTree [''App.csproj'', ''Program.cs'']
                           [(''Tools'', DTree [''Tool.csproj''] [])]),
          (''/srv/Lib'', DTree [''Lib.csproj'', ''Lib.cs'']
                           [(''obj'', DTree [''Lib.dll''] [])])],
       xml_parse := parse_manifests [[''/srv/Lib/Lib.csproj''], []] \<rparr>"

definition app_state :: fs_state where
  "app_state =
     \<lparr> files =
         [(''/srv/App/App.csproj'', Raw (manifest_text [''/srv/Lib/Lib.csproj''])),
          (''/srv/App/Program.cs'', Raw ''class Program {}''),
          (''/srv/App/Tools/Tool.csproj'', Raw (manifest_text [])),
          (''/srv/Lib/Lib.csproj'', Raw (manifest_text [])),
          (''/srv/Lib/Lib.cs'', Raw ''class Lib {}''),
          (''/srv/Lib/obj/Lib.dll'', Raw ''MZ''),
          (''/tmp/App.zip'', Archive
             [(''App.csproj'', Raw (manifest_text [''/srv/Lib/Lib.csproj''])),
              (''Program.cs'', Raw ''class Program {}''),
              (''Tools/Tool.csproj'', Raw (manifest_text []))])],
       warnings = [] \<rparr>"

text \<open>The same application, where the entry \<^verbatim>\<open>Program.cs\<close> of the archive is corrupted:
  reading it raises \<^verbatim>\<open>BadZipFile\<close>.\<close>

definition corrupted_entry_env :: os_env where
  "corrupted_entry_env =
     app_env\<lparr> io_fault := (\<lambda>op. if op = Op_zip_read ''/tmp/App.zip'' ''Program.cs''
                                 then Some BadZipFile else None) \<rparr>"



text \<open>An application whose first reference is a substring of its second one. The
  working directory is \<^verbatim>\<open>/srv/App\<close>, so the relative spellings, which
  \<^verbatim>\<open>_get_dotnet_transitive_missing_references\<close> hands to the parser as they are, name
  the files \<^verbatim>\<open>/srv/Lib/Lib.csproj\<close> and \<^verbatim>\<open>/Lib/Lib.csproj\<close>.\<close>

definition substring_env :: os_env where
  "substring_env =
     posix_env\<lparr>
       os_listdir := list_dirs [(''/srv/App'', [''App.csproj''])],
       os_walk_tree := map_of
         [(''/srv/Lib'', DTree [''Lib.csproj''] []),
          (''/Lib'', DTree [''Lib.csproj''] [])],
       xml_parse := parse_manifests [[''../Lib/Lib.csproj'', ''../../Lib/Lib.csproj''], []] \<rparr>"

definition substring_state :: fs_state where
  "substring_state =
     \<lparr> files =
         [(''/srv/App/App.csproj'',
             Raw (manifest_text [''../Lib/Lib.csproj'', ''../../Lib/Lib.csproj''])),
          (''/srv/Lib/Lib.csproj'', Raw (manifest_text [])),
          (''../Lib/Lib.csproj'', Raw (manifest_text [])),
          (''/Lib/Lib.csproj'', Raw (manifest_text [])),
          (''../../Lib/Lib.csproj'', Raw (manifest_text [])),
          (''/tmp/App.zip'', Archive
             [(''App.csproj'',
                Raw (manifest_text [''../Lib/Lib.csproj'', ''../../Lib/Lib.csproj'']))])],
       warnings = [] \<rparr>"

text \<open>The rewriting the specification asks for: the longest reference first.\<close>

definition rewrite_longest_first :: "string \<Rightarrow> (string \<times> string) list \<Rightarrow> string" where
  "rewrite_longest_first csproj_content replace_dict =
     rewrite_csproj csproj_content (rev (sort_key (\<lambda>kv. length (fst kv)) replace_dict))"

text \<open>
  The application references the library, and the library alone references the
  utilities and the core. The manifest of the application starts with a byte order mark,
  two of its lines end in \<^verbatim>\<open>\r\n\<close> and the last in \<^verbatim>\<open>\r\<close>. The iteration over a set
  gives its second element first.
\<close>

definition app_manifest_bytes :: string where
  "app_manifest_bytes =
     BOM_UTF8
     @ ''<Project>'' @ [CHR 0x0D, CHR 0x0A]
     @ ''<ItemGroup><ProjectReference Include='' @ [CHR 0x22] @ ''/srv/Lib/Lib.csproj''
     @ [CHR 0x22] @ '' /></ItemGroup>'' @ [CHR 0x0D, CHR 0x0A]
     @ ''</Project>'' @ [CHR 0x0D]"

definition app_manifest_rewritten :: string where
  "app_manifest_rewritten =
     ''<Project>'' @ [CHR 0x0A]
     @ ''<ItemGroup><ProjectReference Include='' @ [CHR 0x22] @ ''references/Lib/Lib.csproj''
     @ [CHR 0x22] @ '' /></ItemGroup>'' @ [CHR 0x0A]
     @ ''</Project>'' @ [CHR 0x0A]"

definition chain_env :: os_env where
  "chain_env =
     posix_env\<lparr>
       os_listdir := list_dirs [(''/srv/App'', [''App.csproj'', ''Program.cs''])],
       os_walk_tree := map_of
         [(''/srv/Lib'', DTree [''Lib.csproj'', ''Lib.cs''] []),
          (''/srv/Util'', DTree [''Util.csproj'', ''Util.cs''] []),
          (''/srv/Core'', DTree [''Core.csproj'', ''Core.cs''] [])],
       xml_parse := (\<lambda>t. if t = app_manifest_bytes
                           then Some (manifest_tree [''/srv/Lib/Lib.csproj''])
                           else parse_manifests
                                  [[''/srv/Util/Util.csproj'', ''/srv/Core/Core.csproj''], []] t),
       set_iter := (\<lambda>xs. 1) \<rparr>"

definition chain_state :: fs_state where
  "chain_state =
     \<lparr> files =
         [(''/srv/App/App.csproj'', Raw app_manifest_bytes),
          (''/srv/App/Program.cs'', Raw ''class Program {}''),
          (''/srv/Lib/Lib.csproj'',
             Raw (manifest_text [''/srv/Util/Util.csproj'', ''/srv/Core/Core.csproj''])),
          (''/srv/Lib/Lib.cs'', Raw ''class Lib {}''),
          (''/srv/Util/Util.csproj'', Raw (manifest_text [])),
          (''/srv/Util/Util.cs'', Raw ''class Util {}''),
          (''/srv/Core/Core.csproj'', Raw (manifest_text [])),
          (''/srv/Core/Core.cs'', Raw ''class Core {}''),
          (''/tmp/App.zip'', Archive
             [(''App.csproj'', Raw app_manifest_bytes),
              (''Program.cs'', Raw ''class Program {}'')])],
       warnings = [] \<rparr>"

section \<open>Reasoning about the file operations\<close>

text \<open>
  The facts the properties rest on: which files an operation leaves as they were, and
  what it appends to an archive.
\<close>

definition is_archive :: "fs_state \<Rightarrow> string \<Rightarrow> bool" where
  "is_archive s p = (lookup_file s p = Some (Archive (archive_entries s p)))"

definition unchanged_but :: "string \<Rightarrow> fs_state \<Rightarrow> fs_state \<Rightarrow> bool" where
  "unchanged_but zp s s' =
     ((\<forall>p. p \<noteq> zp \<longrightarrow> lookup_file s' p = lookup_file s p) \<and> warnings s' = warnings s
      \<and> (is_archive s zp \<longrightarrow> is_archive s' zp))"

definition appended :: "string \<Rightarrow> (string \<times> node) list \<Rightarrow> fs_state \<Rightarrow> fs_state \<Rightarrow> bool" where
  "appended zp new s s' =
     (unchanged_but zp s s' \<and> archive_entries s' zp = archive_entries s zp @ new)"

definition touches_only :: "string \<Rightarrow> 'a io \<Rightarrow> bool" where
  "touches_only zp m = (\<forall>s r s'. m s = (r, s') \<longrightarrow> unchanged_but zp s s')"

text \<open>The keys of a Python dictionary filled from a list: each element once, in the order
  of its first occurrence.\<close>

definition first_seen :: "string list \<Rightarrow> string list" where
  "first_seen xs = foldl (\<lambda>seen x. set_add x seen) [] xs"

text \<open>The names staging stores for one step of the walk of a referenced directory, and
  for one reference (its files, then the backup of its manifest).\<close>

definition walked_arcnames :: "os_env \<Rightarrow> string \<Rightarrow> string \<Rightarrow> string \<times> string list \<Rightarrow> string list" where
  "walked_arcnames env pre dirname_include step =
     map (\<lambda>filename. zip_arcname env (os_path_join env pre
            (drop (length dirname_include + 1)
               (os_path_abspath env (os_path_join env (fst step) filename)))))
       (snd step)"

definition reference_arcnames :: "os_env \<Rightarrow> string \<Rightarrow> string \<Rightarrow> string list" where
  "reference_arcnames env dirPath include =
     (let abs_include = os_path_abspath env (os_path_join env dirPath include);
          dirname_include = os_path_dirname env abs_include;
          basename_dir_include = os_path_basename env dirname_include
      in concat (map (walked_arcnames env
                        (os_path_join env (DOTNET_REFERENCES_DIR_IN_ZIP env) basename_dir_include)
                        dirname_include)
                   (walk_dir env (\<lambda>d. d \<notin> set [''obj'', ''bin'']) dirname_include))
         @ [zip_arcname env (csproj_include env dirPath include @ ''.bak'')])"

text \<open>What the copy loop of step 4 appends: for each entry whose name does not end in
  \<^verbatim>\<open>.csproj\<close>, the name with the content \<^verbatim>\<open>zipfile\<close> reads under that name.\<close>

definition copied_entries :: "(string \<times> node) list \<Rightarrow> (string \<times> node) list \<Rightarrow> (string \<times> node) list" where
  "copied_entries infolist xs =
     concat (map (\<lambda>original_info.
                if \<not> endswith (fst original_info) ''.csproj''
                then (case map_of (rev infolist) (fst original_info) of
                        None \<Rightarrow> [] | Some content \<Rightarrow> [(fst original_info, content)])
                else [])
             xs)"

lemma lookup_store_file [simp]:
  "lookup_file (store_file p n s) q = (if q = p then Some n else lookup_file s q)"
  by (simp add: lookup_file_def store_file_def update_conv')

lemma warnings_store_file [simp]: "warnings (store_file p n s) = warnings s"
  by (simp add: store_file_def)

lemma lookup_zip_append_entry [simp]:
  "lookup_file (zip_append_entry p e s) q =
     (if q = p then Some (Archive (archive_entries s p @ [e])) else lookup_file s q)"
  by (simp add: zip_append_entry_def)

lemma warnings_zip_append_entry [simp]: "warnings (zip_append_entry p e s) = warnings s"
  by (simp add: zip_append_entry_def)

lemma archive_entries_zip_append_entry [simp]:
  "archive_entries (zip_append_entry p e s) q =
     (if q = p then archive_entries s p @ [e] else archive_entries s q)"
  by (simp add: archive_entries_def)

lemma is_archive_entry [simp]: "is_archive (zip_append_entry zp e s) zp"
  by (simp add: is_archive_def)

lemma is_archive_store [simp]: "is_archive (store_file zp (Archive es) s) zp"
  by (simp add: is_archive_def archive_entries_def)

lemma unchanged_but_refl [simp]: "unchanged_but zp s s"
  by (simp add: unchanged_but_def)

lemma unchanged_but_trans:
  "unchanged_but zp s s1 \<Longrightarrow> unchanged_but zp s1 s2 \<Longrightarrow> unchanged_but zp s s2"
  by (simp add: unchanged_but_def)

lemma unchanged_but_lookup:
  "unchanged_but zp s s' \<Longrightarrow> p \<noteq> zp \<Longrightarrow> lookup_file s' p = lookup_file s p"
  by (simp add: unchanged_but_def)

lemma appended_refl [simp]: "appended zp [] s s"
  by (simp add: appended_def)

lemma appended_trans:
  "appended zp a s s1 \<Longrightarrow> appended zp b s1 s2 \<Longrightarrow> appended zp (a @ b) s s2"
  by (auto simp: appended_def intro: unchanged_but_trans)

lemma appended_unchanged: "appended zp new s s' \<Longrightarrow> unchanged_but zp s s'"
  by (simp add: appended_def)

lemma appended_entry [simp]: "appended zp [e] s (zip_append_entry zp e s)"
  by (simp add: appended_def unchanged_but_def)


text \<open>Sequencing and loops.\<close>

lemma seq_cases:
  assumes "seq m f s = (r, s')"
  obtains (fails) e where "m s = (Inl e, s')" "r = Inl e"
        | (goes_on) x s1 where "m s = (Inr x, s1)" "f x s1 = (r, s')"
  using assms by (auto simp: seq_def split: prod.splits sum.splits)

lemma seq_Inr:
  assumes "seq m f s = (Inr y, s')"
  obtains x s1 where "m s = (Inr x, s1)" "f x s1 = (Inr y, s')"
  using assms by (auto simp: seq_def split: prod.splits sum.splits)

lemma io_guard_cases:
  assumes "io_guard env op m s = (r, s')"
  obtains (fault) e where "io_fault env op = Some e" "r = Inl e" "s' = s"
        | (run) "io_fault env op = None" "m s = (r, s')"
  using assms by (auto simp: io_guard_def split: option.splits)

lemma touches_only_ret [simp]: "touches_only zp (ret x)"
  by (simp add: touches_only_def ret_def)

lemma touches_only_seq:
  assumes "touches_only zp m" and "\<And>x. touches_only zp (f x)"
  shows "touches_only zp (seq m f)"
  unfolding touches_only_def
proof (intro allI impI)
  fix s r s'
  assume "seq m f s = (r, s')"
  then show "unchanged_but zp s s'"
  proof (cases rule: seq_cases)
    case (fails e)
    then show ?thesis using assms(1) by (auto simp: touches_only_def)
  next
    case (goes_on x s1)
    then show ?thesis
      using assms by (meson touches_only_def unchanged_but_trans)
  qed
qed

lemma touches_only_for_each:
  assumes "\<And>x. x \<in> set xs \<Longrightarrow> touches_only zp (body x)"
  shows "touches_only zp (for_each body xs)"
  using assms
proof (induction xs)
  case Nil
  show ?case by (simp add: touches_only_def)
next
  case (Cons x xs)
  have b: "touches_only zp (body x)" using Cons.prems by simp
  have r: "touches_only zp (for_each body xs)" using Cons by simp
  show ?case
    unfolding touches_only_def
  proof (intro allI impI)
    fix s r' s'
    assume a: "for_each body (x # xs) s = (r', s')"
    show "unchanged_but zp s s'"
    proof (cases "body x s")
      case (Pair r1 s1)
      have u1: "unchanged_but zp s s1" using b Pair by (auto simp: touches_only_def)
      show ?thesis
      proof (cases r1)
        case (Inl e)
        then show ?thesis using a Pair u1 by simp
      next
        case (Inr u)
        then have "for_each body xs s1 = (r', s')" using a Pair by simp
        then have "unchanged_but zp s1 s'" using r by (auto simp: touches_only_def)
        then show ?thesis using u1 by (rule unchanged_but_trans[rotated])
      qed
    qed
  qed
qed

lemma touches_only_guard:
  assumes "touches_only zp m"
  shows "touches_only zp (io_guard env op m)"
  using assms by (auto simp: touches_only_def elim!: io_guard_cases)

lemma touches_only_zip_open_w [simp]: "touches_only zp (zip_open_w env zp)"
  unfolding zip_open_w_def
  by (rule touches_only_guard) (simp add: touches_only_def unchanged_but_def)

lemma touches_only_zip_open_a [simp]: "touches_only zp (zip_open_a env zp)"
  unfolding zip_open_a_def
  by (rule touches_only_guard)
     (auto simp: touches_only_def unchanged_but_def split: option.splits node.splits)

lemma touches_only_zf_write [simp]: "touches_only zp (zf_write env zp filename arcname)"
  unfolding zf_write_def
  by (rule touches_only_guard)
     (auto simp: touches_only_def unchanged_but_def split: option.splits)

lemma touches_only_zf_writestr [simp]: "touches_only zp (zf_writestr env zp name data)"
  unfolding zf_writestr_def
  by (rule touches_only_guard) (auto simp: touches_only_def unchanged_but_def)

lemma touches_only_zf_mkdir [simp]: "touches_only zp (zf_mkdir env zp name)"
  unfolding zf_mkdir_def
  by (rule touches_only_guard) (auto simp: touches_only_def unchanged_but_def)

lemma touches_only_read_text [simp]: "touches_only zp (read_text env p)"
  unfolding read_text_def
  by (rule touches_only_guard) (auto simp: touches_only_def split: option.splits node.splits)

lemma touches_only_zip_open_r [simp]: "touches_only zp (zip_open_r env p)"
  unfolding zip_open_r_def
  by (rule touches_only_guard) (auto simp: touches_only_def split: option.splits node.splits)

lemma touches_only_zf_read [simp]: "touches_only zp (zf_read env p es name)"
  unfolding zf_read_def
  by (rule touches_only_guard) (auto simp: touches_only_def split: option.splits)

lemma touches_only_append_reference [simp]:
  "touches_only zp (append_reference env dirPath zp include)"
  unfolding append_reference_def Let_def
  by (intro touches_only_seq touches_only_for_each) simp_all

lemma touches_only_append_references_loop:
  "touches_only zp (append_references_loop env dirPath zp refs d)"
proof (induction refs arbitrary: d)
  case Nil
  show ?case by (simp add: touches_only_def)
next
  case (Cons r refs)
  show ?case
    unfolding touches_only_def
  proof (intro allI impI)
    fix s res s'
    assume a: "append_references_loop env dirPath zp (r # refs) d s = (res, s')"
    obtain r1 s1 where p: "append_reference env dirPath zp r s = (r1, s1)"
      by (cases "append_reference env dirPath zp r s")
    have u1: "unchanged_but zp s s1"
      using p touches_only_append_reference by (auto simp: touches_only_def)
    show "unchanged_but zp s s'"
    proof (cases r1)
      case (Inl e)
      then show ?thesis using a p u1 by simp
    next
      case (Inr u)
      then have "append_references_loop env dirPath zp refs
                   (AList.update r (csproj_include env dirPath r) d) s1 = (res, s')"
        using a p by simp
      then have "unchanged_but zp s1 s'"
        using Cons.IH by (auto simp: touches_only_def)
      then show ?thesis using u1 by (rule unchanged_but_trans[rotated])
    qed
  qed
qed

lemma touches_only_append_dotnet_references [simp]:
  "touches_only zp (append_dotnet_references env dirPath refs zp)"
  unfolding append_dotnet_references_def
  by (intro touches_only_seq touches_only_append_references_loop) simp

lemma touches_only_copy_original_entries [simp]:
  "touches_only tmp (copy_original_entries env zp tmp es)"
  unfolding copy_original_entries_def
  by (intro touches_only_for_each) (auto intro!: touches_only_seq)


text \<open>The swap.\<close>

definition guarded :: "os_env \<Rightarrow> string \<Rightarrow> 'a io \<Rightarrow> bool" where
  "guarded env zp m =
     (\<forall>s e s'. m s = (Inl e, s') \<longrightarrow> is_archive s (zp @ ''.tmp'') \<longrightarrow>
        lookup_file s' zp = lookup_file s zp
        \<or> (io_fault env (Op_rename (zp @ ''.tmp'') zp) = Some e \<and> lookup_file s' zp = None))"

lemma tmp_neq [simp]: "zp @ ''.tmp'' \<noteq> zp" "zp \<noteq> zp @ ''.tmp''"
  by simp_all

lemma guarded_seq:
  assumes "touches_only (zp @ ''.tmp'') m" and "\<And>x. guarded env zp (f x)"
  shows "guarded env zp (seq m f)"
  unfolding guarded_def
proof (intro allI impI)
  fix s e s'
  assume a: "seq m f s = (Inl e, s')" and t: "is_archive s (zp @ ''.tmp'')"
  from a show "lookup_file s' zp = lookup_file s zp
        \<or> (io_fault env (Op_rename (zp @ ''.tmp'') zp) = Some e \<and> lookup_file s' zp = None)"
  proof (cases rule: seq_cases)
    case (fails e')
    then have "unchanged_but (zp @ ''.tmp'') s s'"
      using assms(1) by (auto simp: touches_only_def)
    then show ?thesis by (simp add: unchanged_but_def)
  next
    case (goes_on x s1)
    then have u: "unchanged_but (zp @ ''.tmp'') s s1"
      using assms(1) by (auto simp: touches_only_def)
    then have "is_archive s1 (zp @ ''.tmp'')" using t by (simp add: unchanged_but_def)
    then have "lookup_file s' zp = lookup_file s1 zp
        \<or> (io_fault env (Op_rename (zp @ ''.tmp'') zp) = Some e \<and> lookup_file s' zp = None)"
      using assms(2)[of x] goes_on(2) by (auto simp: guarded_def)
    moreover have "lookup_file s1 zp = lookup_file s zp"
      using u by (simp add: unchanged_but_def)
    ultimately show ?thesis by simp
  qed
qed

lemma lookup_delete [simp]:
  "lookup_file (s\<lparr>files := AList.delete p (files s)\<rparr>) q =
     (if q = p then None else lookup_file s q)"
  by (simp add: lookup_file_def delete_conv')

lemma lookup_update [simp]:
  "lookup_file (s\<lparr>files := AList.update p n (files s)\<rparr>) q =
     (if q = p then Some n else lookup_file s q)"
  by (simp add: lookup_file_def update_conv')

lemma guarded_swap:
  "guarded env zp (seq (os_remove env zp) (\<lambda>u. os_rename env (zp @ ''.tmp'') zp))"
  unfolding guarded_def
proof (intro allI impI)
  fix s e s'
  assume a: "seq (os_remove env zp) (\<lambda>u. os_rename env (zp @ ''.tmp'') zp) s = (Inl e, s')"
    and t: "is_archive s (zp @ ''.tmp'')"
  from a show "lookup_file s' zp = lookup_file s zp
        \<or> (io_fault env (Op_rename (zp @ ''.tmp'') zp) = Some e \<and> lookup_file s' zp = None)"
  proof (cases rule: seq_cases)
    case (fails e')
    then have "s' = s"
      by (auto simp: os_remove_def elim!: io_guard_cases split: option.splits)
    then show ?thesis by simp
  next
    case (goes_on x s1)
    have s1: "s1 = s\<lparr>files := AList.delete zp (files s)\<rparr>"
      using goes_on(1) by (auto simp: os_remove_def elim!: io_guard_cases split: option.splits)
    have "lookup_file s1 (zp @ ''.tmp'') \<noteq> None"
      using t by (simp add: s1 is_archive_def)
    then have "io_fault env (Op_rename (zp @ ''.tmp'') zp) = Some e \<and> s' = s1"
      using goes_on(2) by (auto simp: os_rename_def elim!: io_guard_cases split: option.splits)
    then show ?thesis by (simp add: s1)
  qed
qed

lemma touches_only_pure [simp]: "touches_only zp (\<lambda>s. (f s, s))"
  by (simp add: touches_only_def)

lemma touches_only_if:
  "touches_only zp m \<Longrightarrow> touches_only zp m' \<Longrightarrow> touches_only zp (if c then m else m')"
  by simp

lemma zip_open_w_archive:
  "zip_open_w env p s = (Inr u, s') \<Longrightarrow> is_archive s' p"
  by (auto simp: zip_open_w_def elim!: io_guard_cases)

lemma init_archive:
  assumes "seq (zip_open_w env p) (\<lambda>u. zf_mkdir env p name) s = (Inr x, s1)"
  shows "is_archive s1 p"
  using assms
proof (cases rule: seq_Inr)
  case (1 u s0)
  then have "is_archive s0 p" by (simp add: zip_open_w_archive)
  moreover have "unchanged_but p s0 s1"
    using 1(2) touches_only_zf_mkdir by (auto simp: touches_only_def)
  ultimately show ?thesis by (simp add: unchanged_but_def)
qed

lemma guarded_start:
  assumes "touches_only (zp @ ''.tmp'') m"
    and "\<And>s x s1. m s = (Inr x, s1) \<Longrightarrow> is_archive s1 (zp @ ''.tmp'')"
    and "\<And>x. guarded env zp (f x)"
    and "seq m f s = (Inl e, s')"
  shows "lookup_file s' zp = lookup_file s zp
        \<or> (io_fault env (Op_rename (zp @ ''.tmp'') zp) = Some e \<and> lookup_file s' zp = None)"
  using assms(4)
proof (cases rule: seq_cases)
  case (fails e')
  then have "unchanged_but (zp @ ''.tmp'') s s'"
    using assms(1) by (auto simp: touches_only_def)
  then show ?thesis by (simp add: unchanged_but_def)
next
  case (goes_on x s1)
  then have u: "unchanged_but (zp @ ''.tmp'') s s1"
    using assms(1) by (auto simp: touches_only_def)
  have "is_archive s1 (zp @ ''.tmp'')" using goes_on(1) by (rule assms(2))
  then have "lookup_file s' zp = lookup_file s1 zp
      \<or> (io_fault env (Op_rename (zp @ ''.tmp'') zp) = Some e \<and> lookup_file s' zp = None)"
    using assms(3)[of x] goes_on(2) by (auto simp: guarded_def)
  moreover have "lookup_file s1 zp = lookup_file s zp"
    using u by (simp add: unchanged_but_def)
  ultimately show ?thesis by simp
qed

lemma zf_write_appended:
  assumes "zf_write env zp filename arcname s = (Inr u, s')"
  shows "\<exists>n. lookup_file s filename = Some n \<and> s' = zip_append_entry zp (zip_arcname env arcname, n) s"
  using assms
  by (auto simp: zf_write_def elim!: io_guard_cases split: option.splits)

lemma zf_writestr_appended:
  assumes "zf_writestr env zp name data s = (Inr u, s')"
  shows "s' = zip_append_entry zp (name, data) s"
  using assms by (auto simp: zf_writestr_def elim!: io_guard_cases)

lemma for_each_Cons_Inr:
  assumes "for_each body (x # xs) s = (Inr u, s')"
  obtains s1 where "body x s = (Inr (), s1)" "for_each body xs s1 = (Inr u, s')"
  using assms by (auto split: prod.splits sum.splits)

lemma for_each_appended_names:
  assumes "\<And>x s s'. x \<in> set xs \<Longrightarrow> body x s = (Inr (), s')
             \<Longrightarrow> \<exists>new. appended zp new s s' \<and> map fst new = names x"
    and "for_each body xs s = (Inr (), s')"
  shows "\<exists>new. appended zp new s s' \<and> map fst new = concat (map names xs)"
  using assms
proof (induction xs arbitrary: s)
  case Nil
  have "appended zp [] s s'" using Nil.prems(2) by simp
  then show ?case by force
next
  case (Cons x xs)
  from Cons.prems(2) obtain s1 where
    b: "body x s = (Inr (), s1)" and r: "for_each body xs s1 = (Inr (), s')"
    by (rule for_each_Cons_Inr)
  have "\<exists>new. appended zp new s s1 \<and> map fst new = names x"
    using b by (intro Cons.prems(1)) simp_all
  then obtain new1 where n1: "appended zp new1 s s1" "map fst new1 = names x" by blast
  have "\<exists>new. appended zp new s1 s' \<and> map fst new = concat (map names xs)"
  proof (rule Cons.IH)
    show "for_each body xs s1 = (Inr (), s')" by (rule r)
  next
    fix y t t' assume "y \<in> set xs" "body y t = (Inr (), t')"
    then show "\<exists>new. appended zp new t t' \<and> map fst new = names y"
      by (intro Cons.prems(1)) simp_all
  qed
  then obtain new2 where
    n2: "appended zp new2 s1 s'" "map fst new2 = concat (map names xs)" by blast
  have "appended zp (new1 @ new2) s s'" using n1(1) n2(1) by (rule appended_trans)
  moreover have "map fst (new1 @ new2) = concat (map names (x # xs))"
    using n1(2) n2(2) by simp
  ultimately show ?case by blast
qed

lemma for_each_appended:
  assumes "\<And>x s s'. x \<in> set xs \<Longrightarrow> body x s = (Inr (), s') \<Longrightarrow> appended zp (new x) s s'"
    and "for_each body xs s = (Inr (), s')"
  shows "appended zp (concat (map new xs)) s s'"
  using assms
proof (induction xs arbitrary: s)
  case Nil
  then show ?case by simp
next
  case (Cons x xs)
  from Cons.prems(2) obtain s1 where
    b: "body x s = (Inr (), s1)" and r: "for_each body xs s1 = (Inr (), s')"
    by (rule for_each_Cons_Inr)
  have a1: "appended zp (new x) s s1" using b by (intro Cons.prems(1)) simp_all
  have a2: "appended zp (concat (map new xs)) s1 s'"
  proof (rule Cons.IH)
    show "for_each body xs s1 = (Inr (), s')" by (rule r)
  next
    fix y t t' assume "y \<in> set xs" "body y t = (Inr (), t')"
    then show "appended zp (new y) t t'" by (intro Cons.prems(1)) simp_all
  qed
  show ?case using appended_trans[OF a1 a2] by simp
qed

lemma zf_write_appended_names:
  assumes "zf_write env zp filename arcname s = (Inr (), s')"
  shows "\<exists>new. appended zp new s s' \<and> map fst new = [zip_arcname env arcname]"
proof -
  from zf_write_appended[OF assms] obtain n where
    "s' = zip_append_entry zp (zip_arcname env arcname, n) s" by blast
  then have "appended zp [(zip_arcname env arcname, n)] s s'" by simp
  then show ?thesis by force
qed

lemma walk_step_appended:
  assumes "for_each (\<lambda>filename.
             zf_write env zp (os_path_abspath env (os_path_join env (fst step) filename))
               (os_path_join env pre (drop (length dirname_include + 1)
                  (os_path_abspath env (os_path_join env (fst step) filename)))))
             (snd step) s = (Inr (), s')"
  shows "\<exists>new. appended zp new s s' \<and> map fst new = walked_arcnames env pre dirname_include step"
proof -
  let ?names = "\<lambda>filename. [zip_arcname env (os_path_join env pre
            (drop (length dirname_include + 1)
               (os_path_abspath env (os_path_join env (fst step) filename))))]"
  have "\<exists>new. appended zp new s s' \<and> map fst new = concat (map ?names (snd step))"
    by (rule for_each_appended_names[OF _ assms]) (rule zf_write_appended_names)
  moreover have "concat (map ?names (snd step)) = walked_arcnames env pre dirname_include step"
    by (simp add: walked_arcnames_def concat_map_singleton)
  ultimately show ?thesis by simp
qed

lemma append_reference_appended:
  assumes "append_reference env dirPath zp include s = (Inr (), s')"
  shows "\<exists>new. appended zp new s s' \<and> map fst new = reference_arcnames env dirPath include"
proof -
  define dirname_include where
    "dirname_include = os_path_dirname env (os_path_abspath env (os_path_join env dirPath include))"
  define pre where
    "pre = os_path_join env (DOTNET_REFERENCES_DIR_IN_ZIP env)
             (os_path_basename env dirname_include)"
  define inner where
    "inner = (\<lambda>step. for_each
                 (\<lambda>filename.
                    zf_write env zp (os_path_abspath env (os_path_join env (fst step) filename))
                      (os_path_join env pre (drop (length dirname_include + 1)
                         (os_path_abspath env (os_path_join env (fst step) filename)))))
                 (snd step))"
  define walked where
    "walked = walk_dir env (\<lambda>d. d \<notin> set [''obj'', ''bin'']) dirname_include"
  define bak where "bak = csproj_include env dirPath include @ ''.bak''"
  have body: "append_reference env dirPath zp include =
          seq (for_each inner walked)
            (\<lambda>u. zf_write env zp (os_path_abspath env (os_path_join env dirPath include)) bak)"
    unfolding append_reference_def Let_def inner_def pre_def dirname_include_def walked_def
      bak_def
    by (rule refl)
  have names: "reference_arcnames env dirPath include =
          concat (map (walked_arcnames env pre dirname_include) walked) @ [zip_arcname env bak]"
    unfolding reference_arcnames_def Let_def pre_def dirname_include_def walked_def bak_def
    by (rule refl)
  from assms obtain u s1 where
    w0: "for_each inner walked s = (Inr u, s1)"
    and b: "zf_write env zp (os_path_abspath env (os_path_join env dirPath include)) bak s1
              = (Inr (), s')"
    unfolding body by (rule seq_Inr)
  have w: "for_each inner walked s = (Inr (), s1)" using w0 by simp
  have "\<exists>new. appended zp new s s1
          \<and> map fst new = concat (map (walked_arcnames env pre dirname_include) walked)"
  proof (rule for_each_appended_names[OF _ w])
    fix step t t'
    assume "inner step t = (Inr (), t')"
    then show "\<exists>new. appended zp new t t'
                 \<and> map fst new = walked_arcnames env pre dirname_include step"
      unfolding inner_def by (rule walk_step_appended)
  qed
  then obtain new1 where n1: "appended zp new1 s s1"
    "map fst new1 = concat (map (walked_arcnames env pre dirname_include) walked)"
    by auto
  from zf_write_appended_names[OF b] obtain new2 where n2: "appended zp new2 s1 s'"
    "map fst new2 = [zip_arcname env bak]"
    by auto
  have "appended zp (new1 @ new2) s s'" using n1(1) n2(1) by (rule appended_trans)
  moreover have "map fst (new1 @ new2) = reference_arcnames env dirPath include"
    unfolding names using n1(2) n2(2) by simp
  ultimately show ?thesis by (intro exI[of _ "new1 @ new2"] conjI)
qed

lemma append_references_loop_effect:
  assumes "append_references_loop env dirPath zp refs d s = (Inr d', s')"
  shows "(\<exists>new. appended zp new s s'
            \<and> map fst new = concat (map (reference_arcnames env dirPath) refs))
         \<and> d' = foldl (\<lambda>d r. AList.update r (csproj_include env dirPath r) d) d refs"
  using assms
proof (induction refs arbitrary: d s)
  case Nil
  then have "s' = s" "d' = d" by simp_all
  then show ?case by force
next
  case (Cons r refs)
  obtain r1 s1 where p: "append_reference env dirPath zp r s = (r1, s1)"
    by (cases "append_reference env dirPath zp r s")
  have r1: "r1 = Inr ()" using Cons.prems p by (cases r1) simp_all
  have rest: "append_references_loop env dirPath zp refs
                (AList.update r (csproj_include env dirPath r) d) s1 = (Inr d', s')"
    using Cons.prems p r1 by simp
  from append_reference_appended[OF p[unfolded r1]] obtain new1 where
    n1: "appended zp new1 s s1" "map fst new1 = reference_arcnames env dirPath r" by auto
  from Cons.IH[OF rest] obtain new2 where
    n2: "appended zp new2 s1 s'" "map fst new2 = concat (map (reference_arcnames env dirPath) refs)"
    and d: "d' = foldl (\<lambda>d r. AList.update r (csproj_include env dirPath r) d)
                  (AList.update r (csproj_include env dirPath r) d) refs"
    by auto
  have "appended zp (new1 @ new2) s s'" using n1(1) n2(1) by (rule appended_trans)
  moreover have "map fst (new1 @ new2) = concat (map (reference_arcnames env dirPath) (r # refs))"
    using n1(2) n2(2) by simp
  ultimately have "\<exists>new. appended zp new s s'
            \<and> map fst new = concat (map (reference_arcnames env dirPath) (r # refs))"
    by (intro exI[of _ "new1 @ new2"] conjI)
  then show ?case using d by simp
qed

lemma zip_open_a_effect:
  assumes "zip_open_a env zp s = (Inr u, s')"
  shows "appended zp [] s s' \<and> is_archive s' zp"
  using assms
  by (auto simp: zip_open_a_def appended_def unchanged_but_def is_archive_def archive_entries_def
      elim!: io_guard_cases split: option.splits node.splits)

lemma update_first_seen:
  "AList.update k (f k) (map (\<lambda>r. (r, f r)) ks) = map (\<lambda>r. (r, f r)) (set_add k ks)"
  by (induction ks) (auto simp: set_add_def)

lemma replace_dict_first_seen_aux:
  "foldl (\<lambda>d r. AList.update r (f r) d) (map (\<lambda>r. (r, f r)) ks) refs
     = map (\<lambda>r. (r, f r)) (foldl (\<lambda>seen x. set_add x seen) ks refs)"
  by (induction refs arbitrary: ks) (simp_all add: update_first_seen)

lemma replace_dict_first_seen:
  "foldl (\<lambda>d r. AList.update r (f r) d) [] refs = map (\<lambda>r. (r, f r)) (first_seen refs)"
  using replace_dict_first_seen_aux[of f "[]" refs] by (simp add: first_seen_def)

lemma set_first_seen_aux: "set (foldl (\<lambda>seen x. set_add x seen) ks xs) = set ks \<union> set xs"
  by (induction xs arbitrary: ks) (auto simp: set_add_def)

lemma set_first_seen [simp]: "set (first_seen xs) = set xs"
  by (simp add: first_seen_def set_first_seen_aux)

lemma append_dotnet_references_effect:
  assumes "append_dotnet_references env dirPath refs zp s = (Inr d, s')"
  shows "(\<exists>new. appended zp new s s'
            \<and> map fst new = concat (map (reference_arcnames env dirPath) refs))
         \<and> d = map (\<lambda>r. (r, csproj_include env dirPath r)) (first_seen refs)
         \<and> is_archive s' zp"
proof -
  from assms obtain u s1 where
    o: "zip_open_a env zp s = (Inr u, s1)"
    and l: "append_references_loop env dirPath zp refs [] s1 = (Inr d, s')"
    unfolding append_dotnet_references_def by (rule seq_Inr)
  from zip_open_a_effect[OF o] have o': "appended zp [] s s1" "is_archive s1 zp" by simp_all
  from append_references_loop_effect[OF l] obtain new where
    n: "appended zp new s1 s'" "map fst new = concat (map (reference_arcnames env dirPath) refs)"
    and d: "d = foldl (\<lambda>d r. AList.update r (csproj_include env dirPath r) d) [] refs"
    by auto
  have "appended zp ([] @ new) s s'" using o'(1) n(1) by (rule appended_trans)
  then have a: "appended zp new s s'" by simp
  have "is_archive s' zp" using n(1) o'(2) by (simp add: appended_def unchanged_but_def)
  moreover have "d = map (\<lambda>r. (r, csproj_include env dirPath r)) (first_seen refs)"
    unfolding d by (rule replace_dict_first_seen)
  moreover have "\<exists>new. appended zp new s s'
            \<and> map fst new = concat (map (reference_arcnames env dirPath) refs)"
    using a n(2) by (intro exI[of _ new] conjI)
  ultimately show ?thesis by simp
qed

lemma zf_read_effect:
  assumes "zf_read env p es name s = (Inr content, s')"
  shows "map_of (rev es) name = Some content \<and> s' = s"
  using assms by (auto simp: zf_read_def elim!: io_guard_cases split: option.splits)

lemma copy_original_entries_effect:
  assumes "copy_original_entries env zp tmp infolist s = (Inr (), s')"
  shows "appended tmp (copied_entries infolist infolist) s s'"
  unfolding copied_entries_def
proof (rule for_each_appended[OF _ assms[unfolded copy_original_entries_def]])
  fix x t t'
  assume a: "(if \<not> endswith (fst x) ''.csproj''
              then seq (zf_read env zp infolist (fst x)) (\<lambda>content. zf_writestr env tmp (fst x) content)
              else ret ()) t = (Inr (), t')"
  show "appended tmp (if \<not> endswith (fst x) ''.csproj''
                      then (case map_of (rev infolist) (fst x) of
                              None \<Rightarrow> [] | Some content \<Rightarrow> [(fst x, content)])
                      else []) t t'"
  proof (cases "endswith (fst x) ''.csproj''")
    case True
    then show ?thesis using a by (simp add: ret_def)
  next
    case False
    then have "seq (zf_read env zp infolist (fst x))
                 (\<lambda>content. zf_writestr env tmp (fst x) content) t = (Inr (), t')"
      using a by simp
    then obtain content t1 where
      r: "zf_read env zp infolist (fst x) t = (Inr content, t1)"
      and w: "zf_writestr env tmp (fst x) content t1 = (Inr (), t')"
      by (rule seq_Inr)
    from zf_read_effect[OF r] zf_writestr_appended[OF w]
    have "map_of (rev infolist) (fst x) = Some content"
      "t' = zip_append_entry tmp (fst x, content) t" by simp_all
    then show ?thesis using False by simp
  qed
qed



lemma zip_success_chain:
  assumes run: "zip_dotnet_project_references env dirPath zp s = (Inr (), s')"
    and csproj: "get_dotnet_main_project_csproj env dirPath = Inr csproj_path"
    and refs: "get_dotnet_project_references env s csproj_path = Inr abs_references"
    and some: "py_any abs_references"
  obtains u0 s0 u1 s1 replace_dict s2 csproj_content s3 transitives_references s4 u5 s5
      u6 s6 u7 s7 u8 s8 infolist s9 u10 s10 u11 s11
  where "zip_open_w env (zp @ ''.tmp'') s = (Inr u0, s0)"
    and "zf_mkdir env (zp @ ''.tmp'') (DOTNET_REFERENCES_DIR_IN_ZIP env) s0 = (Inr u1, s1)"
    and "append_dotnet_references env dirPath abs_references (zp @ ''.tmp'') s1
           = (Inr replace_dict, s2)"
    and "read_text env csproj_path s2 = (Inr csproj_content, s3)"
    and "(get_dotnet_transitive_missing_references env s3 abs_references, s3)
           = (Inr transitives_references, s4)"
    and "(if py_any transitives_references
          then seq (append_dotnet_references env dirPath transitives_references (zp @ ''.tmp''))
                 (\<lambda>d. ret ())
          else ret ()) s4 = (Inr u5, s5)"
    and "zip_open_a env (zp @ ''.tmp'') s5 = (Inr u6, s6)"
    and "zf_write env (zp @ ''.tmp'') csproj_path
           (drop (length dirPath + 1) csproj_path @ ''.bak'') s6 = (Inr u7, s7)"
    and "zf_writestr env (zp @ ''.tmp'') (drop (length dirPath + 1) csproj_path)
           (Raw (rewrite_csproj csproj_content replace_dict)) s7 = (Inr u8, s8)"
    and "zip_open_r env zp s8 = (Inr infolist, s9)"
    and "copy_original_entries env zp (zp @ ''.tmp'') infolist s9 = (Inr u10, s10)"
    and "os_remove env zp s10 = (Inr u11, s11)"
    and "os_rename env (zp @ ''.tmp'') zp s11 = (Inr (), s')"
proof -
  have body: "zip_dotnet_project_references env dirPath zp s =
     seq (seq (zip_open_w env (zp @ ''.tmp''))
            (\<lambda>u. zf_mkdir env (zp @ ''.tmp'') (DOTNET_REFERENCES_DIR_IN_ZIP env)))
       (\<lambda>u. seq (append_dotnet_references env dirPath abs_references (zp @ ''.tmp''))
       (\<lambda>replace_dict. seq (read_text env csproj_path)
       (\<lambda>csproj_content.
          seq (\<lambda>s1. (get_dotnet_transitive_missing_references env s1 abs_references, s1))
       (\<lambda>transitives_references.
          seq (if py_any transitives_references
               then seq (append_dotnet_references env dirPath transitives_references
                           (zp @ ''.tmp'')) (\<lambda>d. ret ())
               else ret ())
       (\<lambda>u. seq (zip_open_a env (zp @ ''.tmp''))
       (\<lambda>u. seq (zf_write env (zp @ ''.tmp'') csproj_path
                   (drop (length dirPath + 1) csproj_path @ ''.bak''))
       (\<lambda>u. seq (zf_writestr env (zp @ ''.tmp'')
                   (drop (length dirPath + 1) csproj_path)
                   (Raw (rewrite_csproj csproj_content replace_dict)))
       (\<lambda>u. seq (zip_open_r env zp)
       (\<lambda>infolist. seq (copy_original_entries env zp (zp @ ''.tmp'') infolist)
       (\<lambda>u. seq (os_remove env zp)
       (\<lambda>u. os_rename env (zp @ ''.tmp'') zp))))))))))) s"
    unfolding zip_dotnet_project_references_def Let_def
    by (simp only: csproj refs some sum.case if_True)
  from run[unfolded body] show thesis
    by (elim seq_Inr) (rule that; assumption)
qed

lemma rewrite_csproj_map:
  "rewrite_csproj csproj_content (map (\<lambda>r. (r, f r)) ks)
     = foldl (\<lambda>new_csproj_content r. str_replace new_csproj_content r (f r)) csproj_content ks"
  by (simp add: rewrite_csproj_def foldl_map)

lemma include_paths_csproj:
  "include_paths ps = Inr rs \<Longrightarrow> r \<in> set rs \<Longrightarrow> endswith r ''.csproj''"
proof (induction ps arbitrary: rs)
  case Nil
  then show ?case by simp
next
  case (Cons p ps)
  from Cons.prems(1) obtain inc rs' where
    i: "map_of (attrib p) ''Include'' = Some inc" and r': "include_paths ps = Inr rs'"
    and rs: "rs = (if endswith inc ''.csproj'' then inc # rs' else rs')"
    by (auto split: option.splits sum.splits)
  show ?case
  proof (cases "r \<in> set rs'")
    case True
    then show ?thesis using Cons.IH[OF r'] by simp
  next
    case False
    then show ?thesis using Cons.prems(2) rs by (auto split: if_splits)
  qed
qed

lemma references_csproj:
  "get_dotnet_project_references env s p = Inr rs \<Longrightarrow> r \<in> set rs \<Longrightarrow> endswith r ''.csproj''"
  by (auto simp: get_dotnet_project_references_def split: sum.splits
      intro: include_paths_csproj)

lemma references_of_node:
  "lookup_file s p = n \<Longrightarrow> lookup_file t p = n \<Longrightarrow>
   get_dotnet_project_references env s p = get_dotnet_project_references env t p"
  by (simp add: get_dotnet_project_references_def ET_parse_def split: option.splits)

lemma references_agree:
  "lookup_file s p = lookup_file t p \<Longrightarrow>
   get_dotnet_project_references env s p = get_dotnet_project_references env t p"
  by (rule references_of_node[OF _ refl])

lemma note_reference_snd_set:
  "set (snd (foldl note_reference acc rs)) \<subseteq> set (snd acc) \<union> set rs"
proof (induction rs arbitrary: acc)
  case Nil
  show ?case by simp
next
  case (Cons r rs)
  have "set (snd (note_reference acc r)) \<subseteq> set (snd acc) \<union> {r}"
    by (auto simp: note_reference_def set_add_def)
  then show ?case using Cons.IH[of "note_reference acc r"] by auto
qed

lemma transitive_loop_agree:
  assumes "\<And>p. endswith p ''.csproj'' \<Longrightarrow> lookup_file s p = lookup_file t p"
    and "\<And>r. r \<in> set new \<Longrightarrow> endswith r ''.csproj''"
  shows "transitive_loop env s res new = transitive_loop env t res new"
  using assms
proof (induction env s res new rule: transitive_loop.induct)
  case (1 env s res new)
  show ?case
  proof (cases "py_any new")
    case False
    then show ?thesis
      by (simp add: transitive_loop.simps[of env s res new] transitive_loop.simps[of env t res new])
  next
    case True
    define i where "i = set_pop env new mod length new"
    define reference where "reference = new ! i"
    define remaining where "remaining = take i new @ drop (Suc i) new"
    have "new \<noteq> []" using True by (rule py_any_nonempty)
    then have "i < length new" by (simp add: i_def)
    then have mem: "reference \<in> set new" by (simp add: reference_def)
    then have "endswith reference ''.csproj''" by (rule "1.prems"(2))
    then have "lookup_file s reference = lookup_file t reference" by (rule "1.prems"(1))
    then have eq: "get_dotnet_project_references env s reference
                   = get_dotnet_project_references env t reference"
      by (rule references_agree)
    have rem: "set remaining \<subseteq> set new"
      unfolding remaining_def using set_take_subset set_drop_subset by fastforce
    show ?thesis
    proof (cases "get_dotnet_project_references env s reference")
      case (Inl e)
      have rt: "get_dotnet_project_references env t reference = Inl e" using eq Inl by simp
      show ?thesis
        using True
        by (simp add: transitive_loop.simps[of env s res new] transitive_loop.simps[of env t res new]
            i_def[symmetric] reference_def[symmetric] Let_def Inl rt)
    next
      case (Inr abs_references)
      define acc where "acc = foldl note_reference (res, remaining) abs_references"
      have rt: "get_dotnet_project_references env t reference = Inr abs_references"
        using eq Inr by simp
      have "transitive_loop env s (fst acc) (snd acc) = transitive_loop env t (fst acc) (snd acc)"
      proof (rule "1.IH"[OF True i_def reference_def remaining_def Inr acc_def])
        fix p assume "endswith p ''.csproj''"
        then show "lookup_file s p = lookup_file t p" by (rule "1.prems"(1))
      next
        fix r assume "r \<in> set (snd acc)"
        then have "r \<in> set remaining \<union> set abs_references"
          using note_reference_snd_set[of "(res, remaining)" abs_references]
          by (auto simp: acc_def)
        then show "endswith r ''.csproj''"
          using rem "1.prems"(2) references_csproj[OF Inr] by auto
      qed
      then show ?thesis
        using True
        by (simp add: transitive_loop.simps[of env s res new] transitive_loop.simps[of env t res new]
            i_def[symmetric] reference_def[symmetric] remaining_def[symmetric]
            Inr rt acc_def[symmetric] Let_def)
    qed
  qed
qed

lemma transitive_references_agree:
  assumes "\<And>p. endswith p ''.csproj'' \<Longrightarrow> lookup_file s p = lookup_file t p"
    and "\<And>r. r \<in> set current_references \<Longrightarrow> endswith r ''.csproj''"
  shows "get_dotnet_transitive_missing_references env s current_references
         = get_dotnet_transitive_missing_references env t current_references"
proof -
  have "transitive_loop env s current_references (remdups current_references)
        = transitive_loop env t current_references (remdups current_references)"
    using assms by (intro transitive_loop_agree) simp_all
  then show ?thesis by (simp add: get_dotnet_transitive_missing_references_def)
qed

lemma tmp_not_csproj: "\<not> endswith (zp @ ''.tmp'') ''.csproj''"
proof
  assume "endswith (zp @ ''.tmp'') ''.csproj''"
  then have "drop (length (zp @ ''.tmp'') - length ''.csproj'') (zp @ ''.tmp'') = ''.csproj''"
    by (simp add: endswith_def)
  then have "last (drop (length (zp @ ''.tmp'') - length ''.csproj'') (zp @ ''.tmp''))
             = last ''.csproj''" by simp
  moreover have "last (drop (length (zp @ ''.tmp'') - length ''.csproj'') (zp @ ''.tmp''))
             = last (zp @ ''.tmp'')"
    by (rule last_drop) simp
  ultimately show False by simp
qed

lemma transitive_loop_csproj:
  assumes "transitive_loop env s res new = Inr result"
    and "r \<in> set result"
  shows "r \<in> set res \<or> endswith r ''.csproj''"
  using assms
proof (induction env s res new rule: transitive_loop.induct)
  case (1 env s res new)
  show ?case
  proof (cases "py_any new")
    case False
    then show ?thesis using "1.prems" by (simp add: transitive_loop.simps[of env s res new])
  next
    case True
    define i where "i = set_pop env new mod length new"
    define reference where "reference = new ! i"
    define remaining where "remaining = take i new @ drop (Suc i) new"
    show ?thesis
    proof (cases "get_dotnet_project_references env s reference")
      case (Inl e)
      show ?thesis
        using True "1.prems"(1)
        by (simp add: transitive_loop.simps[of env s res new] i_def[symmetric] reference_def[symmetric]
            Let_def Inl)
    next
      case (Inr abs_references)
      define acc where "acc = foldl note_reference (res, remaining) abs_references"
      have "transitive_loop env s (fst acc) (snd acc) = Inr result"
        using True "1.prems"(1)
        by (simp add: transitive_loop.simps[of env s res new] i_def[symmetric]
            reference_def[symmetric] remaining_def[symmetric] Inr acc_def[symmetric] Let_def)
      then have "r \<in> set (fst acc) \<or> endswith r ''.csproj''"
        using "1.prems"(2)
        by (rule "1.IH"[OF True i_def reference_def remaining_def Inr acc_def])
      moreover have "set (fst acc) = set res \<union> set abs_references"
        by (simp add: acc_def note_reference_fst_set)
      ultimately show ?thesis using references_csproj[OF Inr] by auto
    qed
  qed
qed

lemma transitive_references_csproj:
  assumes "get_dotnet_transitive_missing_references env s current_references = Inr result"
    and "r \<in> set result"
  shows "endswith r ''.csproj''"
proof -
  from assms(1) obtain res where
    l: "transitive_loop env s current_references (remdups current_references) = Inr res"
    and f: "result = py_list_of_set env
                       (filter (\<lambda>r. r \<notin> set current_references) (remdups res))"
    by (auto simp: get_dotnet_transitive_missing_references_def split: sum.splits)
  have "r \<in> set res" "r \<notin> set current_references" using assms(2) f by auto
  then show ?thesis using transitive_loop_csproj[OF l] by auto
qed

lemma csproj_nonempty: "endswith r ''.csproj'' \<Longrightarrow> r \<noteq> []"
  by (auto simp: endswith_def)

lemma py_any_csproj:
  assumes "\<And>r. r \<in> set rs \<Longrightarrow> endswith r ''.csproj''"
  shows "py_any rs = (rs \<noteq> [])"
proof (cases rs)
  case Nil
  then show ?thesis by (simp add: py_any_def)
next
  case (Cons x xs)
  then have "x \<noteq> []" using assms csproj_nonempty by simp
  then show ?thesis using Cons by (simp add: py_any_def)
qed

lemma touches_onlyD: "touches_only zp m \<Longrightarrow> m s = (r, s') \<Longrightarrow> unchanged_but zp s s'"
  by (auto simp: touches_only_def)

lemma read_text_effect:
  assumes "read_text env p s = (Inr t, s')"
  shows "\<exists>b. lookup_file s p = Some (Raw b) \<and> t = universal_newlines (decode_utf_8_sig b)"
    and "s' = s"
  using assms
  by (auto simp: read_text_def elim!: io_guard_cases split: option.splits node.splits)

lemma zip_open_r_effect:
  assumes "zip_open_r env p s = (Inr es, s')"
  shows "lookup_file s p = Some (Archive es) \<and> s' = s"
  using assms
  by (auto simp: zip_open_r_def elim!: io_guard_cases split: option.splits node.splits)

lemma os_remove_effect:
  assumes "os_remove env p s = (Inr u, s')"
  shows "s' = s\<lparr>files := AList.delete p (files s)\<rparr>"
  using assms by (auto simp: os_remove_def elim!: io_guard_cases split: option.splits)

lemma os_rename_effect:
  assumes "os_rename env src dst s = (Inr u, s')"
  shows "lookup_file s' dst = lookup_file s src \<and> lookup_file s src \<noteq> None"
  using assms
  by (auto simp: os_rename_def lookup_file_def update_conv' elim!: io_guard_cases
      split: option.splits)

lemma is_archive_lookup: "is_archive s p \<Longrightarrow> lookup_file s p = Some (Archive (archive_entries s p))"
  by (simp add: is_archive_def)

lemma zip_open_w_effect:
  assumes "zip_open_w env p s = (Inr u, s')"
  shows "s' = store_file p (Archive []) s"
  using assms by (auto simp: zip_open_w_def elim!: io_guard_cases)

lemma zf_mkdir_effect:
  assumes "zf_mkdir env zp name s = (Inr u, s')"
  shows "s' = zip_append_entry zp (directory_entry_name name, Raw []) s"
  using assms
  by (auto simp: zf_mkdir_def elim!: io_guard_cases)

lemma archive_entries_store [simp]:
  "archive_entries (store_file p (Archive es) s) p = es"
  by (simp add: archive_entries_def)

lemma transitive_staging_effect:
  assumes "(if py_any transitives_references
            then seq (append_dotnet_references env dirPath transitives_references zp)
                   (\<lambda>d. ret ())
            else ret ()) s = (Inr u, s')"
    and "\<And>r. r \<in> set transitives_references \<Longrightarrow> endswith r ''.csproj''"
  shows "\<exists>new. appended zp new s s'
           \<and> map fst new = concat (map (reference_arcnames env dirPath) transitives_references)"
proof (cases "transitives_references = []")
  case True
  then have "s' = s" using assms(1) by (simp add: py_any_def ret_def)
  then have "appended zp [] s s'" by simp
  then show ?thesis using True by (intro exI[of _ "[]"]) simp
next
  case False
  then have "py_any transitives_references" using assms(2) by (simp add: py_any_csproj)
  then have "seq (append_dotnet_references env dirPath transitives_references zp)
               (\<lambda>d. ret ()) s = (Inr u, s')"
    using assms(1) by simp
  then obtain d s1 where
    a: "append_dotnet_references env dirPath transitives_references zp s = (Inr d, s1)"
    and r: "ret () s1 = (Inr u, s')"
    by (rule seq_Inr)
  have "s' = s1" using r by (simp add: ret_def)
  then show ?thesis using append_dotnet_references_effect[OF a] by simp
qed

lemma zip_success_archive:
  assumes run: "zip_dotnet_project_references env dirPath zp s = (Inr (), s')"
    and csproj: "get_dotnet_main_project_csproj env dirPath = Inr csproj_path"
    and refs: "get_dotnet_project_references env s csproj_path = Inr abs_references"
    and some: "py_any abs_references"
  obtains staged infolist csproj_bytes transitives_references where
    "lookup_file s zp = Some (Archive infolist)"
    "lookup_file s csproj_path = Some (Raw csproj_bytes)"
    "get_dotnet_transitive_missing_references env s abs_references = Inr transitives_references"
    "map fst staged
       = [directory_entry_name (DOTNET_REFERENCES_DIR_IN_ZIP env)]
         @ concat (map (reference_arcnames env dirPath) abs_references)
         @ concat (map (reference_arcnames env dirPath) transitives_references)
         @ [zip_arcname env (drop (length dirPath + 1) csproj_path @ ''.bak'')]"
    "lookup_file s' zp = Some (Archive
        (staged
         @ [(drop (length dirPath + 1) csproj_path,
             Raw (rewrite_csproj (universal_newlines (decode_utf_8_sig csproj_bytes))
                    (map (\<lambda>r. (r, csproj_include env dirPath r)) (first_seen abs_references))))]
         @ copied_entries infolist infolist))"
proof -
  define tmp where "tmp = zp @ ''.tmp''"
  define bakname where "bakname = drop (length dirPath + 1) csproj_path @ ''.bak''"
  define relname where "relname = drop (length dirPath + 1) csproj_path"
  define dname where "dname = directory_entry_name (DOTNET_REFERENCES_DIR_IN_ZIP env)"
  have ne: "zp \<noteq> tmp" by (simp add: tmp_def)
  from run csproj refs some obtain u0 s0 u1 s1 replace_dict s2 csproj_content s3
      transitives_references s4 u5 s5 u6 s6 u7 s7 u8 s8 infolist s9 u10 s10 u11 s11
    where c0: "zip_open_w env tmp s = (Inr u0, s0)"
    and c1: "zf_mkdir env tmp (DOTNET_REFERENCES_DIR_IN_ZIP env) s0 = (Inr u1, s1)"
    and c2: "append_dotnet_references env dirPath abs_references tmp s1 = (Inr replace_dict, s2)"
    and c3: "read_text env csproj_path s2 = (Inr csproj_content, s3)"
    and c4: "(get_dotnet_transitive_missing_references env s3 abs_references, s3)
           = (Inr transitives_references, s4)"
    and c5: "(if py_any transitives_references
          then seq (append_dotnet_references env dirPath transitives_references tmp)
                 (\<lambda>d. ret ())
          else ret ()) s4 = (Inr u5, s5)"
    and c6: "zip_open_a env tmp s5 = (Inr u6, s6)"
    and c7: "zf_write env tmp csproj_path bakname s6 = (Inr u7, s7)"
    and c8: "zf_writestr env tmp relname
           (Raw (rewrite_csproj csproj_content replace_dict)) s7 = (Inr u8, s8)"
    and c9: "zip_open_r env zp s8 = (Inr infolist, s9)"
    and c10: "copy_original_entries env zp tmp infolist s9 = (Inr u10, s10)"
    and c11: "os_remove env zp s10 = (Inr u11, s11)"
    and c12: "os_rename env tmp zp s11 = (Inr (), s')"
    unfolding tmp_def bakname_def relname_def by (rule zip_success_chain)
  have e0: "s0 = store_file tmp (Archive []) s" using c0 by (rule zip_open_w_effect)
  have e1: "s1 = zip_append_entry tmp (dname, Raw []) s0"
    unfolding dname_def using c1 by (rule zf_mkdir_effect)
  have ent1: "archive_entries s1 tmp = [(dname, Raw [])]" by (simp add: e1 e0)
  have u01: "unchanged_but tmp s s0" using touches_only_zip_open_w c0 by (rule touches_onlyD)
  have u12: "unchanged_but tmp s0 s1" using touches_only_zf_mkdir c1 by (rule touches_onlyD)
  have u23: "unchanged_but tmp s1 s2"
    using touches_only_append_dotnet_references c2 by (rule touches_onlyD)
  obtain csproj_bytes where
    e3: "lookup_file s2 csproj_path = Some (Raw csproj_bytes)"
    and decoded: "csproj_content = universal_newlines (decode_utf_8_sig csproj_bytes)"
    using read_text_effect(1)[OF c3] by auto
  have e3s: "s3 = s2"
    using c3 by (rule read_text_effect(2))
  have e4p: "get_dotnet_transitive_missing_references env s3 abs_references
                       = Inr transitives_references"
    using c4 by (elim Pair_inject)
  have e43: "s3 = s4"
    using c4 by (elim Pair_inject)
  have e4: "s4 = s2" "get_dotnet_transitive_missing_references env s2 abs_references
                       = Inr transitives_references"
    using e4p e43 e3s by auto
  from append_dotnet_references_effect[OF c2] obtain new2 where
    n2: "appended tmp new2 s1 s2"
      "map fst new2 = concat (map (reference_arcnames env dirPath) abs_references)"
    and dict: "replace_dict
                 = map (\<lambda>r. (r, csproj_include env dirPath r)) (first_seen abs_references)"
    and arch2: "is_archive s2 tmp"
    by auto
  have u_s2: "unchanged_but tmp s s2"
    using u01 u12 u23 by (blast intro: unchanged_but_trans)
  have agree: "lookup_file s p = lookup_file s2 p" if "endswith p ''.csproj''" for p
  proof -
    have "p \<noteq> tmp" using that tmp_not_csproj[of zp] by (auto simp: tmp_def)
    then show ?thesis using u_s2 by (simp add: unchanged_but_def)
  qed
  have direct_csproj: "endswith r ''.csproj''" if "r \<in> set abs_references" for r
    using refs that by (rule references_csproj)
  have trans: "get_dotnet_transitive_missing_references env s abs_references
                 = Inr transitives_references"
    using transitive_references_agree[OF agree direct_csproj, where env = env] e4(2) by simp
  have trans_csproj: "endswith r ''.csproj''" if "r \<in> set transitives_references" for r
    using trans that by (rule transitive_references_csproj)
  from transitive_staging_effect[OF c5 trans_csproj] obtain new5 where
    n5: "appended tmp new5 s4 s5"
      "map fst new5 = concat (map (reference_arcnames env dirPath) transitives_references)"
    by auto
  have n6: "appended tmp [] s5 s6" using zip_open_a_effect[OF c6] by simp
  have ent6: "archive_entries s6 tmp = [(dname, Raw [])] @ new2 @ new5"
    using ent1 n2(1) n5(1) n6 e4(1) by (simp add: appended_def)
  have u_s6: "unchanged_but tmp s s6"
    using u_s2 n5(1) n6 e4(1) by (auto simp: appended_def intro: unchanged_but_trans)
  have u67: "unchanged_but tmp s6 s7" using touches_only_zf_write c7 by (rule touches_onlyD)
  have u78: "unchanged_but tmp s7 s8" using touches_only_zf_writestr c8 by (rule touches_onlyD)
  have u_s8: "unchanged_but tmp s s8"
    using u_s6 u67 u78 by (blast intro: unchanged_but_trans)
  have e9: "lookup_file s8 zp = Some (Archive infolist)" "s9 = s8"
    using zip_open_r_effect[OF c9] by simp_all
  have orig: "lookup_file s zp = Some (Archive infolist)"
    using e9(1) u_s8 ne by (simp add: unchanged_but_def)
  have "csproj_path \<noteq> tmp"
    using e3 is_archive_lookup[OF arch2] by auto
  then have root_text: "lookup_file s csproj_path = Some (Raw csproj_bytes)"
    using e3 u_s2 by (simp add: unchanged_but_def)
  obtain n where e7: "s7 = zip_append_entry tmp (zip_arcname env bakname, n) s6"
    using zf_write_appended[OF c7] by auto
  have e8: "s8 = zip_append_entry tmp (relname, Raw (rewrite_csproj csproj_content replace_dict)) s7"
    using c8 by (rule zf_writestr_appended)
  define staged where "staged = [(dname, Raw [])] @ new2 @ new5 @ [(zip_arcname env bakname, n)]"
  have ent8: "archive_entries s8 tmp
          = staged @ [(relname, Raw (rewrite_csproj csproj_content replace_dict))]"
    by (simp add: e8 e7 ent6 staged_def)
  have arch8: "is_archive s8 tmp" by (simp add: e8)
  have c10': "copy_original_entries env zp tmp infolist s8 = (Inr (), s10)"
    using c10 e9(2) by simp
  have cp: "appended tmp (copied_entries infolist infolist) s8 s10"
    using c10' by (rule copy_original_entries_effect)
  have arch10: "is_archive s10 tmp"
    using cp arch8 by (simp add: appended_def unchanged_but_def)
  have ent10: "archive_entries s10 tmp
          = staged @ [(relname, Raw (rewrite_csproj csproj_content replace_dict))]
            @ copied_entries infolist infolist"
    using cp ent8 by (simp add: appended_def)
  have e11: "s11 = s10\<lparr>files := AList.delete zp (files s10)\<rparr>"
    using c11 by (rule os_remove_effect)
  have "lookup_file s11 tmp = lookup_file s10 tmp" using ne by (simp add: e11)
  moreover have "lookup_file s' zp = lookup_file s11 tmp"
    using os_rename_effect[OF c12] by simp
  ultimately have final: "lookup_file s' zp = Some (Archive
        (staged @ [(relname, Raw (rewrite_csproj csproj_content replace_dict))]
         @ copied_entries infolist infolist))"
    using is_archive_lookup[OF arch10] ent10 by simp
  have names: "map fst staged
       = [dname]
         @ concat (map (reference_arcnames env dirPath) abs_references)
         @ concat (map (reference_arcnames env dirPath) transitives_references)
         @ [zip_arcname env bakname]"
    using n2(2) n5(2) by (simp add: staged_def)
  show thesis
    using orig root_text trans names[unfolded dname_def bakname_def]
      final[unfolded dict relname_def decoded]
    by (rule that)
qed

text \<open>The queue of the loop: \<^verbatim>\<open>newReference\<close> holds no reference twice, and only
  references that are in \<^verbatim>\<open>result_references\<close>.\<close>

lemma note_reference_queue:
  assumes "distinct (snd acc)" and "set (snd acc) \<subseteq> set (fst acc)"
  shows "distinct (snd (foldl note_reference acc rs))
         \<and> set (snd (foldl note_reference acc rs)) \<subseteq> set (fst (foldl note_reference acc rs))"
  using assms
proof (induction rs arbitrary: acc)
  case Nil
  then show ?case by simp
next
  case (Cons r rs)
  have "distinct (snd (note_reference acc r))"
    "set (snd (note_reference acc r)) \<subseteq> set (fst (note_reference acc r))"
    using Cons.prems by (auto simp: note_reference_def set_add_def)
  then show ?case using Cons.IH[of "note_reference acc r"] by simp
qed

lemma note_reference_new_only:
  "set (snd (foldl note_reference acc rs)) \<subseteq> set (snd acc) \<union> (set rs - set (fst acc))"
proof (induction rs arbitrary: acc)
  case Nil
  show ?case by simp
next
  case (Cons r rs)
  have a: "set (snd (note_reference acc r)) \<subseteq> set (snd acc) \<union> ({r} - set (fst acc))"
    by (auto simp: note_reference_def set_add_def)
  have b: "set (fst acc) \<subseteq> set (fst (note_reference acc r))"
    by (auto simp: note_reference_def)
  show ?case using Cons.IH[of "note_reference acc r"] a b by auto
qed

lemma popped_reference:
  assumes "distinct new" and "i < length new"
  shows "distinct (take i new @ drop (Suc i) new)"
    and "new ! i \<notin> set (take i new @ drop (Suc i) new)"
    and "set (take i new @ drop (Suc i) new) \<subseteq> set new"
proof -
  have split: "new = take i new @ new ! i # drop (Suc i) new"
    using assms(2) by (rule id_take_nth_drop)
  have d: "distinct (take i new @ new ! i # drop (Suc i) new)"
    using assms(1) split by simp
  show "distinct (take i new @ drop (Suc i) new)" using d by simp
  show "new ! i \<notin> set (take i new @ drop (Suc i) new)" using d by auto
  show "set (take i new @ drop (Suc i) new) \<subseteq> set new"
    using set_take_subset set_drop_subset by fastforce
qed

lemma transitive_loop_traced_result:
  "fst (transitive_loop_traced env s res new parsed) = transitive_loop env s res new"
proof (induction env s res new parsed rule: transitive_loop_traced.induct)
  case (1 env s res new parsed)
  show ?case
  proof (cases "py_any new")
    case False
    then show ?thesis
      by (simp add: transitive_loop_traced.simps[of env s res new parsed]
          transitive_loop.simps[of env s res new])
  next
    case True
    define i where "i = set_pop env new mod length new"
    define reference where "reference = new ! i"
    define remaining where "remaining = take i new @ drop (Suc i) new"
    show ?thesis
    proof (cases "get_dotnet_project_references env s reference")
      case (Inl e)
      show ?thesis
        using True
        by (simp add: transitive_loop_traced.simps[of env s res new parsed]
            transitive_loop.simps[of env s res new] i_def[symmetric]
            reference_def[symmetric] Let_def Inl)
    next
      case (Inr abs_references)
      define acc where "acc = foldl note_reference (res, remaining) abs_references"
      have "fst (transitive_loop_traced env s (fst acc) (snd acc) (parsed @ [reference]))
            = transitive_loop env s (fst acc) (snd acc)"
        by (rule "1.IH"[OF True i_def reference_def remaining_def Inr acc_def])
      then show ?thesis
        using True
        by (simp add: transitive_loop_traced.simps[of env s res new parsed]
            transitive_loop.simps[of env s res new] i_def[symmetric]
            reference_def[symmetric] remaining_def[symmetric] Inr acc_def[symmetric] Let_def)
    qed
  qed
qed

lemma transitive_loop_traced_distinct:
  assumes "distinct new" and "set new \<subseteq> set res" and "set parsed \<subseteq> set res"
    and "set parsed \<inter> set new = {}" and "distinct parsed"
  shows "distinct (snd (transitive_loop_traced env s res new parsed))"
  using assms
proof (induction env s res new parsed rule: transitive_loop_traced.induct)
  case (1 env s res new parsed)
  show ?case
  proof (cases "py_any new")
    case False
    then show ?thesis
      using "1.prems"(5) by (simp add: transitive_loop_traced.simps[of env s res new parsed])
  next
    case True
    define i where "i = set_pop env new mod length new"
    define reference where "reference = new ! i"
    define remaining where "remaining = take i new @ drop (Suc i) new"
    have "new \<noteq> []" using True by (rule py_any_nonempty)
    then have i: "i < length new" by (simp add: i_def)
    have mem: "reference \<in> set new" using i by (simp add: reference_def)
    have rem: "distinct remaining" "reference \<notin> set remaining" "set remaining \<subseteq> set new"
      unfolding remaining_def reference_def
      using popped_reference[OF "1.prems"(1) i] by simp_all
    have fresh: "reference \<notin> set parsed" using mem "1.prems"(4) by auto
    have dp: "distinct (parsed @ [reference])" using "1.prems"(5) fresh by simp
    show ?thesis
    proof (cases "get_dotnet_project_references env s reference")
      case (Inl e)
      show ?thesis
        using True dp
        by (simp add: transitive_loop_traced.simps[of env s res new parsed] i_def[symmetric]
            reference_def[symmetric] Let_def Inl)
    next
      case (Inr abs_references)
      define acc where "acc = foldl note_reference (res, remaining) abs_references"
      have q: "distinct (snd acc)" "set (snd acc) \<subseteq> set (fst acc)"
        using note_reference_queue[of "(res, remaining)" abs_references] rem "1.prems"(2)
        by (auto simp: acc_def)
      have grow: "set res \<subseteq> set (fst acc)"
        by (simp add: acc_def note_reference_fst_set)
      have seen: "set (parsed @ [reference]) \<subseteq> set (fst acc)"
        using "1.prems"(2,3) mem grow by auto
      have "set (snd acc) \<subseteq> set remaining \<union> (set abs_references - set res)"
        using note_reference_new_only[of "(res, remaining)" abs_references]
        by (simp add: acc_def)
      then have apart: "set (parsed @ [reference]) \<inter> set (snd acc) = {}"
        using rem "1.prems"(2,3,4) mem by (simp add: disjoint_iff subset_iff) blast
      have "distinct (snd (transitive_loop_traced env s (fst acc) (snd acc) (parsed @ [reference])))"
        using q seen apart dp
        by (rule "1.IH"[OF True i_def reference_def remaining_def Inr acc_def])
      then show ?thesis
        using True
        by (simp add: transitive_loop_traced.simps[of env s res new parsed] i_def[symmetric]
            reference_def[symmetric] remaining_def[symmetric] Inr acc_def[symmetric] Let_def)
    qed
  qed
qed

section \<open>The properties\<close>

subsection \<open>The root manifest\<close>

text \<open>
  C5. When the root directory lists no file ending in \<^verbatim>\<open>.csproj\<close>, or more than one,
  \<^verbatim>\<open>zip_dotnet_project_references\<close> raises the exception of
  \<^verbatim>\<open>_get_dotnet_main_project_csproj\<close> and leaves every file as it was: no manifest has
  been parsed (the result does not depend on any file or on the parser) and no archive
  has been opened.
\<close>

theorem root_manifest_not_unique:
  assumes "os_listdir env dirPath = Inr file_list"
    and "length (filter (\<lambda>x. endswith x ''.csproj'') file_list) \<noteq> 1"
  shows "zip_dotnet_project_references env dirPath zip_file_path s =
           (Inl (PyException (dirPath @ '' should contain only one .csproj file'')), s)"
  using assms
  by (simp add: zip_dotnet_project_references_def get_dotnet_main_project_csproj_def)

theorem root_manifest_not_unique_witness:
  "zip_dotnet_project_references two_manifests_env ''/srv/App'' ''/tmp/App.zip'' plain_state =
     (Inl (PyException ''/srv/App should contain only one .csproj file''), plain_state)"
proof -
  have l: "os_listdir two_manifests_env ''/srv/App'' =
             Inr [''App.csproj'', ''Other.csproj'', ''Program.cs'']"
    by code_simp
  have n: "length (filter (\<lambda>x. endswith x ''.csproj'')
             [''App.csproj'', ''Other.csproj'', ''Program.cs'']) \<noteq> 1"
    by (simp add: endswith_def)
  show ?thesis
    using root_manifest_not_unique [OF l n] by simp
qed

text \<open>
  C10. When the root manifest declares no project reference, the bundler returns
  normally and the state is the one it started from: no staging archive, the original
  archive untouched, no warning.
\<close>

theorem no_references_no_mutation:
  assumes "get_dotnet_main_project_csproj env dirPath = Inr csproj_path"
    and "get_dotnet_project_references env s csproj_path = Inr []"
  shows "zip_dotnet_project_references env dirPath zip_file_path s = (Inr (), s)"
  using assms by (simp add: zip_dotnet_project_references_def py_any_def)

theorem no_references_no_mutation_witness:
  "zip_dotnet_project_references plain_env ''/srv/App'' ''/tmp/App.zip'' plain_state =
     (Inr (), plain_state)"
proof -
  have m: "get_dotnet_main_project_csproj plain_env ''/srv/App'' = Inr ''/srv/App/App.csproj''"
    by code_simp
  have r: "get_dotnet_project_references plain_env plain_state ''/srv/App/App.csproj'' = Inr []"
    by code_simp
  show ?thesis
    by (rule no_references_no_mutation [OF m r])
qed

subsection \<open>The transitive references\<close>

text \<open>
  C3. The loop of \<^verbatim>\<open>_get_dotnet_transitive_missing_references\<close> is the function
  \<open>transitive_loop\<close>, which is total: its termination proof orders the calls by the
  number of declared references not yet in \<^verbatim>\<open>result_references\<close>, then by the size of
  \<^verbatim>\<open>newReference\<close>, for every set of manifests, cyclic or not, and whichever element
  \<^verbatim>\<open>set.pop\<close> picks. A reference enters \<^verbatim>\<open>newReference\<close> only when it is not yet in
  \<^verbatim>\<open>result_references\<close>, so no reference is handed to
  \<^verbatim>\<open>_get_dotnet_project_references\<close> twice: the record of the calls kept by
  \<open>transitive_loop_traced\<close>, whose result is that of the loop, has no repetition. The
  list returned has no repetition either.
\<close>

theorem transitive_references_distinct:
  "fst (transitive_loop_traced env s current_references (remdups current_references) [])
     = transitive_loop env s current_references (remdups current_references)
   \<and> distinct (snd (transitive_loop_traced env s current_references
                      (remdups current_references) []))
   \<and> (case get_dotnet_transitive_missing_references env s current_references of
        Inl e \<Rightarrow> True
      | Inr transitives_references \<Rightarrow> distinct transitives_references)"
proof (intro conjI)
  show "fst (transitive_loop_traced env s current_references (remdups current_references) [])
     = transitive_loop env s current_references (remdups current_references)"
    by (rule transitive_loop_traced_result)
  show "distinct (snd (transitive_loop_traced env s current_references
                      (remdups current_references) []))"
    by (rule transitive_loop_traced_distinct) simp_all
  show "case get_dotnet_transitive_missing_references env s current_references of
        Inl e \<Rightarrow> True
      | Inr transitives_references \<Rightarrow> distinct transitives_references"
    by (simp add: get_dotnet_transitive_missing_references_def split: sum.splits)
qed




subsection \<open>The original archive\<close>

text \<open>
  C2. When \<^verbatim>\<open>zip_dotnet_project_references\<close> raises, the original archive is the file
  it was, with one exception: the rename of step 5 itself failed, after the original was
  removed. Every error of the steps before (creating and filling the staging archive,
  reading the manifests, copying the entries) and a failing \<^verbatim>\<open>os.remove\<close> leave the
  original archive as it was: it is removed only once all the copying has succeeded.
\<close>

theorem original_archive_survives_errors:
  assumes "zip_dotnet_project_references env dirPath zip_file_path s = (Inl e, s')"
  shows "lookup_file s' zip_file_path = lookup_file s zip_file_path
         \<or> (io_fault env (Op_rename (zip_file_path @ ''.tmp'') zip_file_path) = Some e
            \<and> lookup_file s' zip_file_path = None)"
proof (cases "get_dotnet_main_project_csproj env dirPath")
  case (Inl e1)
  then show ?thesis using assms by (simp add: zip_dotnet_project_references_def)
next
  case csproj: (Inr csproj_path)
  show ?thesis
  proof (cases "get_dotnet_project_references env s csproj_path")
    case (Inl e2)
    then show ?thesis using assms csproj by (simp add: zip_dotnet_project_references_def)
  next
    case refs: (Inr abs_references)
    show ?thesis
      using assms csproj refs
      apply (simp add: zip_dotnet_project_references_def Let_def split: if_splits)
      apply (erule guarded_start [rotated 3])
        apply (intro touches_only_seq touches_only_zip_open_w touches_only_zf_mkdir)
       apply (erule init_archive)
      apply (rule guarded_swap | rule guarded_seq | intro touches_only_seq touches_only_if
          touches_only_append_dotnet_references touches_only_read_text touches_only_pure
          touches_only_ret touches_only_zip_open_a touches_only_zf_write
          touches_only_zf_writestr touches_only_zip_open_r touches_only_copy_original_entries)+
      done
  qed
qed

theorem original_archive_survives_errors_witness:
  "fst (zip_dotnet_project_references corrupted_entry_env ''/srv/App'' ''/tmp/App.zip'' app_state)
     = Inl BadZipFile
   \<and> lookup_file
        (snd (zip_dotnet_project_references corrupted_entry_env ''/srv/App'' ''/tmp/App.zip''
                app_state)) ''/tmp/App.zip''
     = lookup_file app_state ''/tmp/App.zip''"
proof -
  have r: "fst (zip_dotnet_project_references corrupted_entry_env ''/srv/App'' ''/tmp/App.zip''
                  app_state) = Inl BadZipFile"
    by code_simp
  have f: "io_fault corrupted_entry_env (Op_rename (''/tmp/App.zip'' @ ''.tmp'') ''/tmp/App.zip'')
             = None"
    by code_simp
  have "zip_dotnet_project_references corrupted_entry_env ''/srv/App'' ''/tmp/App.zip'' app_state
          = (Inl BadZipFile,
             snd (zip_dotnet_project_references corrupted_entry_env ''/srv/App'' ''/tmp/App.zip''
                    app_state))"
    using r by (simp add: prod_eq_iff)
  from original_archive_survives_errors [OF this] f r show ?thesis
    by simp
qed

subsection \<open>The caller\<close>

text \<open>
  C6. \<^verbatim>\<open>zip_contents_from_dir\<close> catches \<^verbatim>\<open>OSError\<close>, \<^verbatim>\<open>ValueError\<close>, \<^verbatim>\<open>TypeError\<close>,
  \<^verbatim>\<open>ParseError\<close>, \<^verbatim>\<open>BadZipFile\<close> and \<^verbatim>\<open>LargeZipFile\<close> around the bundler, logs a
  warning and returns the path of the archive. The bare \<^verbatim>\<open>Exception\<close> of
  \<^verbatim>\<open>_get_dotnet_main_project_csproj\<close> is none of them: with two manifests in the root
  directory the exception leaves \<^verbatim>\<open>zip_contents_from_dir\<close>, no warning is logged and no
  path is returned.
\<close>

theorem ambiguous_root_manifest_escapes:
  "fst (zip_contents_from_dir two_manifests_env ''/srv/App'' ''dotnetcore'' two_manifests_state)
     = Inl (PyException ''/srv/App should contain only one .csproj file'')
   \<and> warnings (snd (zip_contents_from_dir two_manifests_env ''/srv/App'' ''dotnetcore''
                      two_manifests_state)) = []"
  by code_simp

subsection \<open>Staging\<close>




subsection \<open>Rewriting the root manifest\<close>

text \<open>
  C8, as the code has it. The substitutions are applied one after the other in the order
  in which the references first occur among the references of the root manifest (the
  order of the keys of \<^verbatim>\<open>replace_dict\<close>), whatever their lengths.
\<close>

theorem rewriting_in_order_of_declaration:
  assumes "append_dotnet_references env dirPath abs_references zip_file_path s
             = (Inr replace_dict, s')"
  shows "rewrite_csproj csproj_content replace_dict
           = foldl (\<lambda>new_csproj_content r.
                      str_replace new_csproj_content r (csproj_include env dirPath r))
               csproj_content (first_seen abs_references)"
proof -
  from append_dotnet_references_effect[OF assms]
  have "replace_dict = map (\<lambda>r. (r, csproj_include env dirPath r)) (first_seen abs_references)"
    by simp
  then show ?thesis by (simp only: rewrite_csproj_map)
qed

theorem rewriting_in_order_of_declaration_witness:
  "rewrite_csproj (manifest_text [''../Lib/Lib.csproj'', ''../../Lib/Lib.csproj''])
     [(''../Lib/Lib.csproj'', ''references/Lib/Lib.csproj''),
      (''../../Lib/Lib.csproj'', ''references/Lib/Lib.csproj'')]
   = foldl (\<lambda>new_csproj_content r.
              str_replace new_csproj_content r (csproj_include substring_env ''/srv/App'' r))
       (manifest_text [''../Lib/Lib.csproj'', ''../../Lib/Lib.csproj''])
       (first_seen [''../Lib/Lib.csproj'', ''../../Lib/Lib.csproj''])"
proof -
  have r: "fst (append_dotnet_references substring_env ''/srv/App''
                  [''../Lib/Lib.csproj'', ''../../Lib/Lib.csproj''] ''/tmp/App.zip.tmp''
                  substring_state)
           = Inr [(''../Lib/Lib.csproj'', ''references/Lib/Lib.csproj''),
                  (''../../Lib/Lib.csproj'', ''references/Lib/Lib.csproj'')]"
    by code_simp
  have "append_dotnet_references substring_env ''/srv/App''
          [''../Lib/Lib.csproj'', ''../../Lib/Lib.csproj''] ''/tmp/App.zip.tmp'' substring_state
        = (Inr [(''../Lib/Lib.csproj'', ''references/Lib/Lib.csproj''),
                (''../../Lib/Lib.csproj'', ''references/Lib/Lib.csproj'')],
           snd (append_dotnet_references substring_env ''/srv/App''
                  [''../Lib/Lib.csproj'', ''../../Lib/Lib.csproj''] ''/tmp/App.zip.tmp''
                  substring_state))"
    using r by (simp add: prod_eq_iff)
  then show ?thesis
    by (rule rewriting_in_order_of_declaration)
qed

text \<open>
  C8, as the claim states it, fails: \<^verbatim>\<open>../Lib/Lib.csproj\<close> is declared before
  \<^verbatim>\<open>../../Lib/Lib.csproj\<close> and is a substring of it; the shorter one is substituted
  first, and the manifest stored in the archive keeps the fragment \<^verbatim>\<open>../\<close> of the longer
  one, where rewriting the longest first leaves none.
\<close>

theorem shorter_reference_rewritten_first:
  "fst (zip_dotnet_project_references substring_env ''/srv/App'' ''/tmp/App.zip'' substring_state)
     = Inr ()
   \<and> map_of (archive_entries
         (snd (zip_dotnet_project_references substring_env ''/srv/App'' ''/tmp/App.zip''
                 substring_state)) ''/tmp/App.zip'') ''App.csproj''
     = Some (Raw (manifest_text
                    [''references/Lib/Lib.csproj'', ''../references/Lib/Lib.csproj'']))
   \<and> rewrite_longest_first (manifest_text [''../Lib/Lib.csproj'', ''../../Lib/Lib.csproj''])
        [(''../Lib/Lib.csproj'', ''references/Lib/Lib.csproj''),
         (''../../Lib/Lib.csproj'', ''references/Lib/Lib.csproj'')]
     = manifest_text [''references/Lib/Lib.csproj'', ''references/Lib/Lib.csproj'']"
  by code_simp

subsection \<open>The archive after a successful run\<close>




text \<open>
  C9. After a successful run for a manifest with references, the archive holds, under
  the name of the root manifest, the text of the root manifest (its bytes decoded as
  \<^verbatim>\<open>utf-8-sig\<close>, its line ends read as \<^verbatim>\<open>\n\<close>) rewritten by a map whose keys are
  exactly the direct references; the entries staged before it are the directory entry,
  the trees of the direct references, the trees of the transitive references in the
  order \<^verbatim>\<open>_get_dotnet_transitive_missing_references\<close> returns them, and the backup of the
  root manifest. The second call of \<^verbatim>\<open>_append_dotnet_references\<close> stages the transitive
  references and its map is dropped.
\<close>

theorem rewrite_map_keys_are_direct_references:
  assumes "zip_dotnet_project_references env dirPath zip_file_path s = (Inr (), s')"
    and "get_dotnet_main_project_csproj env dirPath = Inr csproj_path"
    and "get_dotnet_project_references env s csproj_path = Inr abs_references"
    and "py_any abs_references"
  shows "\<exists>staged copied csproj_bytes replace_dict transitives_references.
           lookup_file s csproj_path = Some (Raw csproj_bytes)
           \<and> get_dotnet_transitive_missing_references env s abs_references
               = Inr transitives_references
           \<and> set (map fst replace_dict) = set abs_references
           \<and> map fst staged
               = [directory_entry_name (DOTNET_REFERENCES_DIR_IN_ZIP env)]
                 @ concat (map (reference_arcnames env dirPath) abs_references)
                 @ concat (map (reference_arcnames env dirPath) transitives_references)
                 @ [zip_arcname env (drop (length dirPath + 1) csproj_path @ ''.bak'')]
           \<and> lookup_file s' zip_file_path
               = Some (Archive (staged
                   @ [(drop (length dirPath + 1) csproj_path,
                       Raw (rewrite_csproj (universal_newlines (decode_utf_8_sig csproj_bytes))
                              replace_dict))]
                   @ copied))"
proof -
  from assms obtain staged infolist csproj_bytes transitives_references where
    t: "lookup_file s csproj_path = Some (Raw csproj_bytes)"
    and c: "get_dotnet_transitive_missing_references env s abs_references
              = Inr transitives_references"
    and n: "map fst staged
       = [directory_entry_name (DOTNET_REFERENCES_DIR_IN_ZIP env)]
         @ concat (map (reference_arcnames env dirPath) abs_references)
         @ concat (map (reference_arcnames env dirPath) transitives_references)
         @ [zip_arcname env (drop (length dirPath + 1) csproj_path @ ''.bak'')]"
    and f: "lookup_file s' zip_file_path = Some (Archive
        (staged
         @ [(drop (length dirPath + 1) csproj_path,
             Raw (rewrite_csproj (universal_newlines (decode_utf_8_sig csproj_bytes))
                    (map (\<lambda>r. (r, csproj_include env dirPath r)) (first_seen abs_references))))]
         @ copied_entries infolist infolist))"
    by (rule zip_success_archive)
  have k: "set (map fst (map (\<lambda>r. (r, csproj_include env dirPath r)) (first_seen abs_references)))
             = set abs_references"
    by (simp add: comp_def)
  show ?thesis
    using t c k n f by blast
qed

theorem rewrite_map_keys_are_direct_references_witness:
  "(\<exists>staged copied csproj_bytes replace_dict transitives_references.
      lookup_file chain_state ''/srv/App/App.csproj'' = Some (Raw csproj_bytes)
      \<and> get_dotnet_transitive_missing_references chain_env chain_state [''/srv/Lib/Lib.csproj'']
          = Inr transitives_references
      \<and> set (map fst replace_dict) = set [''/srv/Lib/Lib.csproj'']
      \<and> map fst staged
          = [directory_entry_name (DOTNET_REFERENCES_DIR_IN_ZIP chain_env)]
            @ concat (map (reference_arcnames chain_env ''/srv/App'') [''/srv/Lib/Lib.csproj''])
            @ concat (map (reference_arcnames chain_env ''/srv/App'') transitives_references)
            @ [zip_arcname chain_env
                 (drop (length ''/srv/App'' + 1) ''/srv/App/App.csproj'' @ ''.bak'')]
      \<and> lookup_file
            (snd (zip_dotnet_project_references chain_env ''/srv/App'' ''/tmp/App.zip''
                    chain_state)) ''/tmp/App.zip''
          = Some (Archive (staged
              @ [(drop (length ''/srv/App'' + 1) ''/srv/App/App.csproj'',
                  Raw (rewrite_csproj (universal_newlines (decode_utf_8_sig csproj_bytes))
                         replace_dict))]
              @ copied)))
   \<and> get_dotnet_transitive_missing_references chain_env chain_state [''/srv/Lib/Lib.csproj'']
       = Inr [''/srv/Core/Core.csproj'', ''/srv/Util/Util.csproj'']
   \<and> archive_entries
         (snd (zip_dotnet_project_references chain_env ''/srv/App'' ''/tmp/App.zip'' chain_state))
         ''/tmp/App.zip''
       = [(''references/'', Raw []),
          (''references/Lib/Lib.csproj'',
             Raw (manifest_text [''/srv/Util/Util.csproj'', ''/srv/Core/Core.csproj''])),
          (''references/Lib/Lib.cs'', Raw ''class Lib {}''),
          (''references/Lib/Lib.csproj.bak'',
             Raw (manifest_text [''/srv/Util/Util.csproj'', ''/srv/Core/Core.csproj''])),
          (''references/Core/Core.csproj'', Raw (manifest_text [])),
          (''references/Core/Core.cs'', Raw ''class Core {}''),
          (''references/Core/Core.csproj.bak'', Raw (manifest_text [])),
          (''references/Util/Util.csproj'', Raw (manifest_text [])),
          (''references/Util/Util.cs'', Raw ''class Util {}''),
          (''references/Util/Util.csproj.bak'', Raw (manifest_text [])),
          (''App.csproj.bak'', Raw app_manifest_bytes),
          (''App.csproj'', Raw app_manifest_rewritten),
          (''Program.cs'', Raw ''class Program {}'')]"
proof -
  have r: "fst (zip_dotnet_project_references chain_env ''/srv/App'' ''/tmp/App.zip'' chain_state)
             = Inr ()"
    by code_simp
  have run: "zip_dotnet_project_references chain_env ''/srv/App'' ''/tmp/App.zip'' chain_state
        = (Inr (), snd (zip_dotnet_project_references chain_env ''/srv/App'' ''/tmp/App.zip''
                          chain_state))"
    using r by (simp add: prod_eq_iff)
  have m: "get_dotnet_main_project_csproj chain_env ''/srv/App'' = Inr ''/srv/App/App.csproj''"
    by code_simp
  have d: "get_dotnet_project_references chain_env chain_state ''/srv/App/App.csproj''
             = Inr [''/srv/Lib/Lib.csproj'']"
    by code_simp
  have a: "py_any [''/srv/Lib/Lib.csproj'']" by code_simp
  have t: "get_dotnet_transitive_missing_references chain_env chain_state
             [''/srv/Lib/Lib.csproj''] = Inr [''/srv/Core/Core.csproj'', ''/srv/Util/Util.csproj'']"
    by code_simp
  have e: "archive_entries
         (snd (zip_dotnet_project_references chain_env ''/srv/App'' ''/tmp/App.zip'' chain_state))
         ''/tmp/App.zip''
       = [(''references/'', Raw []),
          (''references/Lib/Lib.csproj'',
             Raw (manifest_text [''/srv/Util/Util.csproj'', ''/srv/Core/Core.csproj''])),
          (''references/Lib/Lib.cs'', Raw ''class Lib {}''),
          (''references/Lib/Lib.csproj.bak'',
             Raw (manifest_text [''/srv/Util/Util.csproj'', ''/srv/Core/Core.csproj''])),
          (''references/Core/Core.csproj'', Raw (manifest_text [])),
          (''references/Core/Core.cs'', Raw ''class Core {}''),
          (''references/Core/Core.csproj.bak'', Raw (manifest_text [])),
          (''references/Util/Util.csproj'', Raw (manifest_text [])),
          (''references/Util/Util.cs'', Raw ''class Util {}''),
          (''references/Util/Util.csproj.bak'', Raw (manifest_text [])),
          (''App.csproj.bak'', Raw app_manifest_bytes),
          (''App.csproj'', Raw app_manifest_rewritten),
          (''Program.cs'', Raw ''class Program {}'')]"
    by code_simp
  show ?thesis
    using rewrite_map_keys_are_direct_references [OF run m d a] t e
    by (intro conjI)
qed

end
